theory Spec2Isabelle
  imports Main "HOL-Library.Word"
begin

unbundle bit_operations_syntax

text \<open>
  The Helium rewards scrapers, as functions of HOL: the frame decoder, the checksummed
  base58 codec, the wire-format walkers of the PoC scraper, the per-frame steps of the
  single-device and the fleet scan, and the object listing. First the model, one
  definition per function of the source and named after it; then the lemmas; then the
  claims, C1 to C10. What the source takes from a library (\<open>bs58\<close>, \<open>crypto\<close>, the
  \<open>protobufjs\<close> reader) is modelled where its result matters and is a parameter where it
  does not (\<open>MobileRewardShare.decode\<close>, the object store). Numbers the source holds as
  doubles are exact integers here.
\<close>

section \<open>Bytes and buffers\<close>

text \<open>
  A Node \<open>Buffer\<close> is a list of bytes. \<open>slice\<close> follows
  \<open>Buffer.prototype.slice(start, end)\<close>: a negative index counts from the end and
  both indices are clamped to the buffer.
\<close>

type_synonym byte = "8 word"
type_synonym buffer = "byte list"

definition clamp_index :: "nat \<Rightarrow> int \<Rightarrow> nat" where
  "clamp_index len i = (if i < 0 then nat (max (int len + i) 0) else min (nat i) len)"

definition slice :: "int \<Rightarrow> int \<Rightarrow> 'a list \<Rightarrow> 'a list" where
  "slice start end xs =
     (let s = clamp_index (length xs) start; e = clamp_index (length xs) end
      in take (e - s) (drop s xs))"

text \<open>\<open>buf.subarray(start, end)\<close> for indices that are not negative.\<close>

definition subarray :: "buffer \<Rightarrow> nat \<Rightarrow> nat \<Rightarrow> buffer" where
  "subarray buf start end = take (end - start) (drop start buf)"

section \<open>Frame decoder\<close>

text \<open>
  \<open>buffer.readUInt32BE(0)\<close>. The caller reads only when \<open>buffer.length >= 4\<close>,
  so the range error of Node cannot occur; the last equation is never reached.
\<close>

fun readUInt32BE :: "buffer \<Rightarrow> nat" where
  "readUInt32BE (b0 # b1 # b2 # b3 # rest) =
     unat b0 * 2 ^ 24 + unat b1 * 2 ^ 16 + unat b2 * 2 ^ 8 + unat b3"
| "readUInt32BE _ = 0"

text \<open>
  The inner \<open>while (buffer.length >= 4)\<close> loop of \<open>framedMessages\<close>: the messages
  it yields, in order, and the buffer it leaves.
\<close>

function drain :: "buffer \<Rightarrow> buffer list \<times> buffer" where
  "drain buffer =
     (if 4 \<le> length buffer then
        (let messageLength = readUInt32BE buffer in
         if length buffer < 4 + messageLength then ([], buffer)
         else
           (let message = take messageLength (drop 4 buffer);
                r = drain (drop (4 + messageLength) buffer)
            in (message # fst r, snd r)))
      else ([], buffer))"
  by pat_completeness auto
termination
  by (relation "measure length") auto

text \<open>
  The outer \<open>for await (const chunk of stream)\<close> loop: the generator's yields for a
  stream given as the list of its chunks, from a working buffer.
\<close>

fun framedMessages_from :: "buffer \<Rightarrow> buffer list \<Rightarrow> buffer list" where
  "framedMessages_from buffer [] = []"
| "framedMessages_from buffer (chunk # stream) =
     (let r = drain (buffer @ chunk) in fst r @ framedMessages_from (snd r) stream)"

definition framedMessages :: "buffer list \<Rightarrow> buffer list" where
  "framedMessages stream = framedMessages_from [] stream"

text \<open>The working buffer the generator holds when the stream ends.\<close>

fun final_buffer :: "buffer \<Rightarrow> buffer list \<Rightarrow> buffer" where
  "final_buffer buffer [] = buffer"
| "final_buffer buffer (chunk # stream) = final_buffer (snd (drain (buffer @ chunk))) stream"

text \<open>The wire form of one frame: a 4-byte big-endian length, then the payload.\<close>

definition writeUInt32BE :: "nat \<Rightarrow> buffer" where
  "writeUInt32BE n =
     [of_nat (n div 2 ^ 24), of_nat (n div 2 ^ 16), of_nat (n div 2 ^ 8), of_nat n]"

definition frame_bytes :: "buffer \<Rightarrow> buffer" where
  "frame_bytes message = writeUInt32BE (length message) @ message"

text \<open>A buffer whose first frame is complete: the loop would yield from it.\<close>

definition frame_ready :: "buffer \<Rightarrow> bool" where
  "frame_ready buffer = (4 \<le> length buffer \<and> 4 + readUInt32BE buffer \<le> length buffer)"

section \<open>Errors\<close>

text \<open>
  A JavaScript exception is a value: \<open>RangeError\<close> is the reader's index-out-of-range
  error, \<open>Error msg\<close> an \<open>Error\<close> with its message.
\<close>

datatype js_error = RangeError | Error string

section \<open>SHA-256 (\<open>crypto.createHash("sha256")\<close>)\<close>

type_synonym u32 = "32 word"

text \<open>
  The constants of FIPS 180-4: the first 32 bits of the fractional parts of the cube roots
  of the first 64 primes, and of the square roots of the first 8 primes.
\<close>

primrec root_bits :: "nat \<Rightarrow> nat \<Rightarrow> nat \<Rightarrow> nat \<Rightarrow> nat" where
  "root_bits k n 0 acc = acc"
| "root_bits k n (Suc i) acc =
     (let c = acc + 2 ^ i in root_bits k n i (if c ^ k \<le> n then c else acc))"

definition floor_root :: "nat \<Rightarrow> nat \<Rightarrow> nat" where
  "floor_root k n = root_bits k n 40 0"

definition primes_below :: "nat \<Rightarrow> nat list" where
  "primes_below n = filter (\<lambda>p. list_all (\<lambda>d. p mod d \<noteq> 0) [2..<p]) [2..<n]"

definition K256 :: "u32 list" where
  "K256 = map (\<lambda>p. of_nat (floor_root 3 (p * 2 ^ 96))) (primes_below 312)"

definition H256 :: "u32 list" where
  "H256 = map (\<lambda>p. of_nat (floor_root 2 (p * 2 ^ 64))) (primes_below 20)"

definition rotr32 :: "nat \<Rightarrow> u32 \<Rightarrow> u32" where
  "rotr32 n x = drop_bit n x OR push_bit (32 - n) x"

definition Ch :: "u32 \<Rightarrow> u32 \<Rightarrow> u32 \<Rightarrow> u32" where
  "Ch x y z = (x AND y) XOR (NOT x AND z)"

definition Maj :: "u32 \<Rightarrow> u32 \<Rightarrow> u32 \<Rightarrow> u32" where
  "Maj x y z = (x AND y) XOR (x AND z) XOR (y AND z)"

definition bsig0 :: "u32 \<Rightarrow> u32" where
  "bsig0 x = rotr32 2 x XOR rotr32 13 x XOR rotr32 22 x"

definition bsig1 :: "u32 \<Rightarrow> u32" where
  "bsig1 x = rotr32 6 x XOR rotr32 11 x XOR rotr32 25 x"

definition ssig0 :: "u32 \<Rightarrow> u32" where
  "ssig0 x = rotr32 7 x XOR rotr32 18 x XOR drop_bit 3 x"

definition ssig1 :: "u32 \<Rightarrow> u32" where
  "ssig1 x = rotr32 17 x XOR rotr32 19 x XOR drop_bit 10 x"

definition word_of_bytes :: "buffer \<Rightarrow> u32" where
  "word_of_bytes bs = foldl (\<lambda>acc b. push_bit 8 acc OR ucast b) 0 bs"

definition bytes_of_word :: "u32 \<Rightarrow> buffer" where
  "bytes_of_word w = [ucast (drop_bit 24 w), ucast (drop_bit 16 w), ucast (drop_bit 8 w), ucast w]"

definition bytes_of_length :: "nat \<Rightarrow> buffer" where
  "bytes_of_length n =
     (let w = (of_nat n :: 64 word) in map (\<lambda>i. ucast (drop_bit (8 * (7 - i)) w)) [0..<8])"

definition sha256_pad :: "buffer \<Rightarrow> buffer" where
  "sha256_pad m =
     m @ [0x80] @ replicate ((119 - length m mod 64) mod 64) 0 @ bytes_of_length (8 * length m)"

definition sha256_blocks :: "buffer \<Rightarrow> buffer list" where
  "sha256_blocks p = map (\<lambda>i. take 64 (drop (64 * i) p)) [0..<length p div 64]"

definition sha256_extend :: "u32 list \<Rightarrow> u32 list" where
  "sha256_extend w =
     (let t = length w
      in w @ [ssig1 (w ! (t - 2)) + w ! (t - 7) + ssig0 (w ! (t - 15)) + w ! (t - 16)])"

definition sha256_schedule :: "buffer \<Rightarrow> u32 list" where
  "sha256_schedule block =
     (sha256_extend ^^ 48) (map (\<lambda>j. word_of_bytes (take 4 (drop (4 * j) block))) [0..<16])"

fun sha256_round :: "u32 list \<Rightarrow> u32 \<times> u32 \<Rightarrow> u32 list" where
  "sha256_round [a, b, c, d, e, f, g, h] (k, w) =
     (let T1 = h + bsig1 e + Ch e f g + k + w;
          T2 = bsig0 a + Maj a b c
      in [T1 + T2, a, b, c, d + T1, e, f, g])"
| "sha256_round s _ = s"

definition sha256_compress :: "u32 list \<Rightarrow> buffer \<Rightarrow> u32 list" where
  "sha256_compress hs block =
     map (\<lambda>(x, y). x + y) (zip hs (foldl sha256_round hs (zip K256 (sha256_schedule block))))"

definition sha256 :: "buffer \<Rightarrow> buffer" where
  "sha256 m = concat (map bytes_of_word (foldl sha256_compress H256 (sha256_blocks (sha256_pad m))))"

section \<open>Base58 (\<open>bs58\<close>), hex and base64\<close>

text \<open>
  \<open>bs58.encode\<close> writes one leading \<open>1\<close> per leading zero byte, then the remaining
  bytes, read as one big-endian number, in base 58 with no leading zero digit.
  \<open>bs58.decode\<close> is its inverse and throws on a character outside the alphabet.
  The library does the base conversion on digit arrays; here it is done on \<open>nat\<close>.
\<close>

definition ALPHABET :: string where
  "ALPHABET = ''123456789ABCDEFGHJKLMNPQRSTUVWXYZabcdefghijkmnopqrstuvwxyz''"

function to_digits :: "nat \<Rightarrow> nat \<Rightarrow> nat list" where
  "to_digits base n =
     (if n = 0 \<or> base < 2 then [] else to_digits base (n div base) @ [n mod base])"
  by pat_completeness auto
termination
  by (relation "measure snd") auto

definition from_digits :: "nat \<Rightarrow> nat list \<Rightarrow> nat" where
  "from_digits base ds = foldl (\<lambda>acc d. acc * base + d) 0 ds"

definition bs58_encode :: "buffer \<Rightarrow> string" where
  "bs58_encode source =
     (let zeroes = length (takeWhile (\<lambda>b. b = 0) source);
          digits = to_digits 58 (from_digits 256 (map unat (drop zeroes source)))
      in replicate zeroes (ALPHABET ! 0) @ map (\<lambda>d. ALPHABET ! d) digits)"

definition BASE_MAP :: "char \<Rightarrow> nat option" where
  "BASE_MAP c = map_of (zip ALPHABET [0..<58]) c"

fun base58_values :: "string \<Rightarrow> nat list option" where
  "base58_values [] = Some []"
| "base58_values (c # cs) =
     (case BASE_MAP c of
        None \<Rightarrow> None
      | Some d \<Rightarrow> (case base58_values cs of None \<Rightarrow> None | Some ds \<Rightarrow> Some (d # ds)))"

definition bs58_decode :: "string \<Rightarrow> js_error + buffer" where
  "bs58_decode source =
     (let zeroes = length (takeWhile (\<lambda>c. c = ALPHABET ! 0) source)
      in case base58_values (drop zeroes source) of
           None \<Rightarrow> Inl (Error ''Non-base58 character'')
         | Some ds \<Rightarrow> Inr (replicate zeroes 0 @ map of_nat (to_digits 256 (from_digits 58 ds))))"

definition hex_digit :: "nat \<Rightarrow> char" where
  "hex_digit d = ''0123456789abcdef'' ! d"

definition toHex :: "buffer \<Rightarrow> string" where
  "toHex buf = concat (map (\<lambda>b. [hex_digit (unat b div 16), hex_digit (unat b mod 16)]) buf)"

definition b64_char :: "nat \<Rightarrow> char" where
  "b64_char d = ''ABCDEFGHIJKLMNOPQRSTUVWXYZabcdefghijklmnopqrstuvwxyz0123456789+/'' ! d"

fun toBase64 :: "buffer \<Rightarrow> string" where
  "toBase64 (a # b # c # rest) =
     (let n = unat a * 65536 + unat b * 256 + unat c
      in [b64_char (n div 262144), b64_char (n div 4096 mod 64),
          b64_char (n div 64 mod 64), b64_char (n mod 64)] @ toBase64 rest)"
| "toBase64 [a, b] =
     (let n = unat a * 65536 + unat b * 256
      in [b64_char (n div 262144), b64_char (n div 4096 mod 64), b64_char (n div 64 mod 64),
          CHR ''=''])"
| "toBase64 [a] =
     (let n = unat a * 65536
      in [b64_char (n div 262144), b64_char (n div 4096 mod 64), CHR ''='', CHR ''=''])"
| "toBase64 [] = []"

section \<open>Checksummed base58\<close>

text \<open>\<open>base58checkEncode(data, version = 0)\<close>, as every scraper defines it.\<close>

definition base58checkEncode :: "buffer \<Rightarrow> byte \<Rightarrow> string" where
  "base58checkEncode data version =
     (let versionedData = [version] @ data;
          firstHash = sha256 versionedData;
          secondHash = sha256 firstHash;
          checksum = slice 0 4 secondHash;
          finalData = versionedData @ checksum
      in bs58_encode finalData)"

text \<open>\<open>base58checkEncodeRaw(payload, version = 0)\<close> of the PoC scraper.\<close>

definition base58checkEncodeRaw :: "buffer \<Rightarrow> byte \<Rightarrow> string" where
  "base58checkEncodeRaw payload version =
     (let data = [version] @ payload;
          chk = subarray (sha256 (sha256 data)) 0 4
      in bs58_encode (data @ chk))"

section \<open>Device key formats\<close>

record device_key_formats =
  original :: string
  rawBase58 :: string
  hex :: string
  base64 :: string
  base58check :: "string option"

text \<open>
  \<open>getTargetDeviceFormats\<close> of \<open>scripts/scrape-device.js\<close>. The \<open>try\<close> block throws
  only where \<open>bs58.decode\<close> does; the \<open>catch\<close> block then decodes the same key again,
  and an exception of that second call leaves the function.
\<close>

definition getTargetDeviceFormats :: "string \<Rightarrow> js_error + device_key_formats" where
  "getTargetDeviceFormats targetKey =
     (case bs58_decode targetKey of
        Inr decoded \<Rightarrow>
          (let data = slice 1 (- 4) decoded;
               rawBase58 = bs58_encode data
           in Inr \<lparr>original = targetKey, rawBase58 = rawBase58, hex = toHex data,
                   base64 = toBase64 data, base58check = Some (base58checkEncode data 0)\<rparr>)
      | Inl e \<Rightarrow>
          (case bs58_decode targetKey of
             Inl e' \<Rightarrow> Inl e'
           | Inr data \<Rightarrow>
               Inr \<lparr>original = targetKey, rawBase58 = targetKey, hex = toHex data,
                     base64 = toBase64 data, base58check = None\<rparr>))"

text \<open>
  \<open>getTargetDeviceFormats\<close> of \<open>src/scrapeHeliumRewards.js\<close> and
  \<open>src/scrapePocRewards.js\<close>: the same, with no \<open>base58check\<close> field in either branch.
\<close>

definition getTargetDeviceFormats_scraper :: "string \<Rightarrow> js_error + device_key_formats" where
  "getTargetDeviceFormats_scraper targetKey =
     (case bs58_decode targetKey of
        Inr decoded \<Rightarrow>
          (let data = slice 1 (- 4) decoded;
               rawBase58 = bs58_encode data
           in Inr \<lparr>original = targetKey, rawBase58 = rawBase58, hex = toHex data,
                   base64 = toBase64 data, base58check = None\<rparr>)
      | Inl e \<Rightarrow>
          (case bs58_decode targetKey of
             Inl e' \<Rightarrow> Inl e'
           | Inr data \<Rightarrow>
               Inr \<lparr>original = targetKey, rawBase58 = targetKey, hex = toHex data,
                     base64 = toBase64 data, base58check = None\<rparr>))"

text \<open>\<open>Object.values(targetFormats)\<close>: the fields that are present, in order.\<close>

definition format_values :: "device_key_formats \<Rightarrow> string list" where
  "format_values tf =
     [original tf, rawBase58 tf, hex tf, base64 tf]
     @ (case base58check tf of None \<Rightarrow> [] | Some s \<Rightarrow> [s])"

section \<open>Wire-format reader (\<open>protobufjs\<close> \<open>Reader\<close>)\<close>

text \<open>
  The reader is a buffer and a position. Reading past the end of a typed array gives
  \<open>undefined\<close>: \<open>undefined & 127\<close> is 0 and \<open>undefined < 128\<close> is false.
\<close>

definition low_bits :: "buffer \<Rightarrow> nat \<Rightarrow> byte \<Rightarrow> byte" where
  "low_bits buf pos m = (if pos < length buf then buf ! pos AND m else 0)"

definition lt128 :: "buffer \<Rightarrow> nat \<Rightarrow> bool" where
  "lt128 buf pos = (pos < length buf \<and> buf ! pos < 128)"

text \<open>\<open>Reader.prototype.uint32\<close>: a varint of up to five bytes, the rest of a longer one skipped.\<close>

definition uint32 :: "buffer \<Rightarrow> nat \<Rightarrow> js_error + (u32 \<times> nat)" where
  "uint32 buf pos =
     (let v0 = ucast (low_bits buf pos 127) in
      if lt128 buf pos then Inr (v0, pos + 1) else
      let v1 = v0 OR push_bit 7 (ucast (low_bits buf (pos + 1) 127)) in
      if lt128 buf (pos + 1) then Inr (v1, pos + 2) else
      let v2 = v1 OR push_bit 14 (ucast (low_bits buf (pos + 2) 127)) in
      if lt128 buf (pos + 2) then Inr (v2, pos + 3) else
      let v3 = v2 OR push_bit 21 (ucast (low_bits buf (pos + 3) 127)) in
      if lt128 buf (pos + 3) then Inr (v3, pos + 4) else
      let v4 = v3 OR push_bit 28 (ucast (low_bits buf (pos + 4) 15)) in
      if lt128 buf (pos + 4) then Inr (v4, pos + 5) else
      if length buf < pos + 10 then Inl RangeError else Inr (v4, pos + 10))"

text \<open>
  The loops of \<open>readLongVarint\<close>: up to \<open>n\<close> bytes, seven bits each from shift
  \<open>sh\<close>; \<open>checked\<close> is the slow route, which tests the position before each read.
  The result says whether a byte below 128 ended the varint.
\<close>

fun varint_loop ::
  "bool \<Rightarrow> buffer \<Rightarrow> nat \<Rightarrow> nat \<Rightarrow> nat \<Rightarrow> 64 word \<Rightarrow> js_error + (64 word \<times> nat \<times> bool)" where
  "varint_loop checked buf pos sh 0 v = Inr (v, pos, False)"
| "varint_loop checked buf pos sh (Suc n) v =
     (if checked \<and> length buf \<le> pos then Inl RangeError
      else
        (let v' = v OR push_bit sh (ucast (low_bits buf pos 127)) in
         if lt128 buf pos then Inr (v', pos + 1, True)
         else varint_loop checked buf (pos + 1) (sh + 7) n v'))"

text \<open>\<open>Reader.prototype.uint64\<close>, the low and the high word joined into one 64-bit value.\<close>

definition uint64 :: "buffer \<Rightarrow> nat \<Rightarrow> js_error + (64 word \<times> nat)" where
  "uint64 buf pos =
     (if 4 < length buf - pos then
        (case varint_loop False buf pos 0 5 0 of
           Inl e \<Rightarrow> Inl e
         | Inr (v, p, done) \<Rightarrow>
             if done then Inr (v, p)
             else
               (case varint_loop (\<not> 4 < length buf - p) buf p 35 5 v of
                  Inl e \<Rightarrow> Inl e
                | Inr (v', p', done') \<Rightarrow>
                    if done' then Inr (v', p') else Inl (Error ''invalid varint encoding'')))
      else
        (case varint_loop True buf pos 0 3 0 of
           Inl e \<Rightarrow> Inl e
         | Inr (v, p, done) \<Rightarrow>
             if done then Inr (v, p)
             else Inr (v OR push_bit 21 (ucast (low_bits buf p 127)), p + 1)))"

text \<open>\<open>Reader.prototype.skip(length)\<close>.\<close>

definition skip :: "buffer \<Rightarrow> nat \<Rightarrow> nat \<Rightarrow> js_error + nat" where
  "skip buf pos n = (if length buf < pos + n then Inl RangeError else Inr (pos + n))"

lemma uint32_advances: "uint32 buf pos = Inr (v, p) \<Longrightarrow> pos < p"
  by (auto simp: uint32_def Let_def split: if_splits)

lemma varint_loop_advances:
  "varint_loop checked buf pos sh n v = Inr (v', p, done) \<Longrightarrow> pos \<le> p \<and> (done \<longrightarrow> pos < p)"
proof (induction n arbitrary: pos sh v)
  case 0
  then show ?case by simp
next
  case (Suc n)
  show ?case
  proof (cases "lt128 buf pos")
    case True
    with Suc.prems show ?thesis by (auto simp: Let_def split: if_splits)
  next
    case False
    with Suc.prems have "varint_loop checked buf (pos + 1) (sh + 7) n
        (v OR push_bit sh (ucast (low_bits buf pos 127))) = Inr (v', p, done)"
      by (auto simp: Let_def split: if_splits)
    from Suc.IH [OF this] show ?thesis by auto
  qed
qed

lemma uint64_advances: "uint64 buf pos = Inr (v, p) \<Longrightarrow> pos < p"
  unfolding uint64_def
  by (auto split: if_splits sum.splits prod.splits dest!: varint_loop_advances)

lemma skip_advances: "skip buf pos n = Inr p \<Longrightarrow> p = pos + n"
  by (auto simp: skip_def split: if_splits)

section \<open>PoC scraper: walking a message\<close>

definition wire_name :: "u32 \<Rightarrow> string" where
  "wire_name wire = [''01234567'' ! unat wire]"

text \<open>\<open>extractSubmessage(frame, fieldNo)\<close>, from reader position \<open>pos\<close>.\<close>

function extractSubmessage_from :: "buffer \<Rightarrow> u32 \<Rightarrow> nat \<Rightarrow> js_error + buffer option" where
  "extractSubmessage_from frame fieldNo pos =
     (if pos < length frame then
        (case uint32 frame pos of
           Inl e \<Rightarrow> Inl e
         | Inr (tag, p1) \<Rightarrow>
             (let field = drop_bit 3 tag; wire = tag AND 7 in
              if wire = 2 then
                (case uint32 frame p1 of
                   Inl e \<Rightarrow> Inl e
                 | Inr (len, start) \<Rightarrow>
                     (let end = start + unat len; slice = subarray frame start end in
                      if field = fieldNo then Inr (Some slice)
                      else extractSubmessage_from frame fieldNo end))
              else if wire = 0 then
                (case uint64 frame p1 of
                   Inl e \<Rightarrow> Inl e
                 | Inr (v, p2) \<Rightarrow> extractSubmessage_from frame fieldNo p2)
              else if wire = 1 then
                (case skip frame p1 8 of
                   Inl e \<Rightarrow> Inl e
                 | Inr p2 \<Rightarrow> extractSubmessage_from frame fieldNo p2)
              else if wire = 5 then
                (case skip frame p1 4 of
                   Inl e \<Rightarrow> Inl e
                 | Inr p2 \<Rightarrow> extractSubmessage_from frame fieldNo p2)
              else Inl (Error (''unexpected wire type '' @ wire_name wire))))
      else Inr None)"
  by pat_completeness auto
termination
  by (relation "measure (\<lambda>(frame, fieldNo, pos). length frame - pos)")
     (auto dest!: uint32_advances uint64_advances skip_advances)

definition extractSubmessage :: "buffer \<Rightarrow> u32 \<Rightarrow> js_error + buffer option" where
  "extractSubmessage frame fieldNo = extractSubmessage_from frame fieldNo 0"

text \<open>
  The loop of \<open>getPeriodFromFrame\<close>, with \<open>start\<close> and \<open>end\<close> as it goes. A wire
  type other than 0, 1, 2 and 5 has no branch: the loop goes on at the byte after the tag.
\<close>

function getPeriod_loop ::
  "buffer \<Rightarrow> nat \<Rightarrow> 64 word option \<Rightarrow> 64 word option
   \<Rightarrow> js_error + (64 word option \<times> 64 word option)" where
  "getPeriod_loop frame pos start end =
     (if pos < length frame then
        (case uint32 frame pos of
           Inl e \<Rightarrow> Inl e
         | Inr (tag, p1) \<Rightarrow>
             (let field = drop_bit 3 tag; wire = tag AND 7 in
              if wire = 0 then
                (case uint64 frame p1 of
                   Inl e \<Rightarrow> Inl e
                 | Inr (n, p2) \<Rightarrow>
                     getPeriod_loop frame p2 (if field = 1 then Some n else start)
                       (if field = 2 then Some n else end))
              else if wire = 2 then
                (case uint32 frame p1 of
                   Inl e \<Rightarrow> Inl e
                 | Inr (len, p2) \<Rightarrow> getPeriod_loop frame (p2 + unat len) start end)
              else if wire = 1 then
                (case skip frame p1 8 of
                   Inl e \<Rightarrow> Inl e
                 | Inr p2 \<Rightarrow> getPeriod_loop frame p2 start end)
              else if wire = 5 then
                (case skip frame p1 4 of
                   Inl e \<Rightarrow> Inl e
                 | Inr p2 \<Rightarrow> getPeriod_loop frame p2 start end)
              else getPeriod_loop frame p1 start end))
      else Inr (start, end))"
  by pat_completeness auto
termination
  by (relation "measure (\<lambda>(frame, pos, start, end). length frame - pos)")
     (auto dest!: uint32_advances uint64_advances skip_advances)

definition getPeriodFromFrame :: "buffer \<Rightarrow> js_error + (nat \<times> nat) option" where
  "getPeriodFromFrame frame =
     (case getPeriod_loop frame 0 None None of
        Inl e \<Rightarrow> Inl e
      | Inr (Some s, Some e) \<Rightarrow> Inr (Some (unat s, unat e))
      | Inr _ \<Rightarrow> Inr None)"

record radio_fields =
  hotspotPayload :: "buffer option"
  cbsdBytes :: "buffer option"
  basePocBits :: "64 word"
  boostedPocBits :: "64 word"

text \<open>The loop of \<open>parseRadioRewardV2\<close>; like the period loop it has no branch for
  another wire type.\<close>

function parseRadio_loop :: "buffer \<Rightarrow> nat \<Rightarrow> radio_fields \<Rightarrow> js_error + radio_fields" where
  "parseRadio_loop rr2 pos st =
     (if pos < length rr2 then
        (case uint32 rr2 pos of
           Inl e \<Rightarrow> Inl e
         | Inr (tag, p1) \<Rightarrow>
             (let field = drop_bit 3 tag; wire = tag AND 7 in
              if wire = 2 then
                (case uint32 rr2 p1 of
                   Inl e \<Rightarrow> Inl e
                 | Inr (len, start) \<Rightarrow>
                     (let end = start + unat len;
                          st1 = (if field = 1 then st\<lparr>hotspotPayload := Some (subarray rr2 start end)\<rparr>
                                 else st);
                          st2 = (if field = 2 then st1\<lparr>cbsdBytes := Some (subarray rr2 start end)\<rparr>
                                 else st1)
                      in parseRadio_loop rr2 end st2))
              else if wire = 0 then
                (case uint64 rr2 p1 of
                   Inl e \<Rightarrow> Inl e
                 | Inr (n, p2) \<Rightarrow>
                     (let st1 = (if field = 7 then st\<lparr>basePocBits := n\<rparr> else st);
                          st2 = (if field = 8 then st1\<lparr>boostedPocBits := n\<rparr> else st1)
                      in parseRadio_loop rr2 p2 st2))
              else if wire = 1 then
                (case skip rr2 p1 8 of
                   Inl e \<Rightarrow> Inl e
                 | Inr p2 \<Rightarrow> parseRadio_loop rr2 p2 st)
              else if wire = 5 then
                (case skip rr2 p1 4 of
                   Inl e \<Rightarrow> Inl e
                 | Inr p2 \<Rightarrow> parseRadio_loop rr2 p2 st)
              else parseRadio_loop rr2 p1 st))
      else Inr st)"
  by pat_completeness auto
termination
  by (relation "measure (\<lambda>(rr2, pos, st). length rr2 - pos)")
     (auto dest!: uint32_advances uint64_advances skip_advances)

text \<open>Decimal text of a number, for the placeholder of an unexpected key length.\<close>

definition show_nat :: "nat \<Rightarrow> string" where
  "show_nat n = (if n = 0 then ''0'' else map (\<lambda>d. ''0123456789'' ! d) (to_digits 10 n))"

text \<open>\<open>new TextDecoder().decode(bytes)\<close>: a string holds the bytes of its UTF-8 text.\<close>

definition decode_text :: "buffer \<Rightarrow> string" where
  "decode_text bs = map (\<lambda>b. char_of (unat b)) bs"

record radio_reward =
  hotspotId :: "string option"
  cbsdId :: "string option"
  basePoc :: nat
  boostedPoc :: nat
  totalPoc :: nat

definition parseRadioRewardV2 :: "buffer \<Rightarrow> js_error + radio_reward" where
  "parseRadioRewardV2 rr2 =
     (case parseRadio_loop rr2 0
             \<lparr>hotspotPayload = None, cbsdBytes = None, basePocBits = 0, boostedPocBits = 0\<rparr> of
        Inl e \<Rightarrow> Inl e
      | Inr st \<Rightarrow>
          (let hotspotId =
                 (case hotspotPayload st of
                    None \<Rightarrow> None
                  | Some payload \<Rightarrow>
                      if length payload = 264 then Some (base58checkEncodeRaw payload 0)
                      else if length payload = 32 then Some (bs58_encode payload)
                      else Some (''<unexpected hotspot_key length '' @ show_nat (length payload)
                                 @ '' bytes>''))
           in Inr \<lparr>hotspotId = hotspotId, cbsdId = map_option decode_text (cbsdBytes st),
                   basePoc = unat (basePocBits st), boostedPoc = unat (boostedPocBits st),
                   totalPoc = unat (basePocBits st) + unat (boostedPocBits st)\<rparr>))"

section \<open>Strings\<close>

text \<open>\<open>s.includes(sub)\<close>, \<open>s.endsWith(suffix)\<close> and \<open>s.toLowerCase()\<close> on ASCII.\<close>

fun str_includes :: "string \<Rightarrow> string \<Rightarrow> bool" where
  "str_includes [] sub = (sub = [])"
| "str_includes (c # cs) sub = (take (length sub) (c # cs) = sub \<or> str_includes cs sub)"

definition endsWith :: "string \<Rightarrow> string \<Rightarrow> bool" where
  "endsWith s suffix = (length suffix \<le> length s \<and> drop (length s - length suffix) s = suffix)"

definition lower_char :: "char \<Rightarrow> char" where
  "lower_char c =
     (let n = (of_char c :: nat) in if 65 \<le> n \<and> n \<le> 90 then char_of (n + 32) else c)"

definition toLowerCase :: "string \<Rightarrow> string" where
  "toLowerCase s = map lower_char s"

section \<open>PoC scraper: matching and the per-frame step\<close>

text \<open>\<open>matchesTargetDevice(deviceKey, targetFormats)\<close>; \<open>None\<close> is \<open>null\<close>.\<close>

definition matchesTargetDevice :: "string option \<Rightarrow> device_key_formats \<Rightarrow> bool" where
  "matchesTargetDevice deviceKey targetFormats =
     (case deviceKey of
        None \<Rightarrow> False
      | Some k \<Rightarrow>
          if k = [] then False
          else if k = original targetFormats then True
          else if (case bs58_decode k of
                     Inl e \<Rightarrow> False
                   | Inr decoded \<Rightarrow>
                       (case bs58_decode (original targetFormats) of
                          Inl e \<Rightarrow> False
                        | Inr targetDecoded \<Rightarrow> decoded = targetDecoded)) then True
          else list_ex (\<lambda>v. str_includes k v) (format_values targetFormats))"

record poc_entry =
  poc_file :: string
  poc_timestamp :: int
  poc_basePoc :: nat
  poc_boostedPoc :: nat
  poc_totalPoc :: nat
  poc_period :: "(nat \<times> nat) option"
  poc_hotspotId :: "string option"
  poc_cbsdId :: "string option"

text \<open>
  The body of the \<open>try\<close> inside the frame loop of \<open>scrapePocRewards\<close>: the entry it
  pushes, if any, or the exception that leaves it.
\<close>

definition poc_try :: "device_key_formats \<Rightarrow> string \<Rightarrow> int \<Rightarrow> buffer \<Rightarrow> js_error + poc_entry option" where
  "poc_try targetFormats file timestamp frame =
     (case getPeriodFromFrame frame of
        Inl e \<Rightarrow> Inl e
      | Inr period \<Rightarrow>
          (case extractSubmessage frame 8 of
             Inl e \<Rightarrow> Inl e
           | Inr None \<Rightarrow> Inr None
           | Inr (Some rr2) \<Rightarrow>
               (case parseRadioRewardV2 rr2 of
                  Inl e \<Rightarrow> Inl e
                | Inr r \<Rightarrow>
                    (let isTargetDevice =
                           (matchesTargetDevice (cbsdId r) targetFormats
                            \<or> matchesTargetDevice (hotspotId r) targetFormats)
                     in if isTargetDevice then
                          Inr (Some \<lparr>poc_file = file, poc_timestamp = timestamp,
                                     poc_basePoc = basePoc r, poc_boostedPoc = boostedPoc r,
                                     poc_totalPoc = totalPoc r, poc_period = period,
                                     poc_hotspotId = hotspotId r, poc_cbsdId = cbsdId r\<rparr>)
                        else Inr None))))"

record poc_state =
  pocRewards :: "poc_entry list"
  messageCount :: nat
  foundCount :: nat

text \<open>One turn of the frame loop: the \<open>catch\<close> ignores the exception.\<close>

definition poc_frame :: "device_key_formats \<Rightarrow> string \<Rightarrow> int \<Rightarrow> poc_state \<Rightarrow> buffer \<Rightarrow> poc_state" where
  "poc_frame targetFormats file timestamp st frame =
     (let st1 = st\<lparr>messageCount := messageCount st + 1\<rparr>
      in case poc_try targetFormats file timestamp frame of
           Inl e \<Rightarrow> st1
         | Inr None \<Rightarrow> st1
         | Inr (Some entry) \<Rightarrow>
             st1\<lparr>foundCount := foundCount st1 + 1, pocRewards := pocRewards st1 @ [entry]\<rparr>)"

text \<open>
  A file in the date range: its key, the timestamp of the key, and what fetching gives:
  an exception, no body, or the chunks of the decompressed stream.
\<close>

record s3_file =
  file_key :: string
  file_ts :: int
  file_body :: "js_error + buffer list option"

text \<open>The loop over the files of \<open>scrapePocRewards\<close>; the counters start at 0 for each file.\<close>

definition poc_file_step :: "device_key_formats \<Rightarrow> poc_entry list \<Rightarrow> s3_file \<Rightarrow> poc_entry list" where
  "poc_file_step targetFormats rewards f =
     (case file_body f of
        Inl e \<Rightarrow> rewards
      | Inr None \<Rightarrow> rewards
      | Inr (Some stream) \<Rightarrow>
          pocRewards
            (foldl (poc_frame targetFormats (file_key f) (file_ts f))
               \<lparr>pocRewards = rewards, messageCount = 0, foundCount = 0\<rparr>
               (framedMessages stream)))"

definition poc_scan :: "device_key_formats \<Rightarrow> s3_file list \<Rightarrow> poc_entry list" where
  "poc_scan targetFormats files = foldl (poc_file_step targetFormats) [] files"

section \<open>Decoded reward-share messages\<close>

text \<open>
  \<open>MobileRewardShare.decode\<close> belongs to \<open>@helium/proto\<close>; the scrapers take it as
  given, and so does the model: \<open>decode\<close> is a parameter. Of a decoded message the code
  reads \<open>gatewayReward\<close>, its \<open>dcTransferReward\<close> (a \<open>uint64\<close>, decoded as a
  \<open>Long\<close>), the properties \<open>gatewayReward[k]\<close> (own or inherited), the other own
  fields of \<open>gatewayReward\<close> in the order of \<open>Object.entries\<close>, and the text of
  \<open>JSON.stringify\<close> of the message and of its \<open>enrichBytes\<close> form. A property value
  is bytes (\<open>isBytes\<close> holds of it) or something else.
\<close>

datatype field_value = Bytes buffer | Other string

record gateway_reward =
  dcTransferReward :: "64 word option"
  property :: "string \<Rightarrow> field_value option"
  ownFields :: "(string \<times> field_value) list"

record decoded_share =
  gatewayReward :: "gateway_reward option"
  messageStr :: string
  enrichedStr :: string

type_synonym decoder = "buffer \<Rightarrow> js_error + decoded_share"

text \<open>\<open>Long.low\<close>: the low 32 bits, as a signed 32-bit integer.\<close>

definition long_low :: "64 word \<Rightarrow> int" where
  "long_low v = sint (ucast v :: 32 word)"

text \<open>\<open>parseInt(dcTransfer.toString(), 10)\<close> of an unsigned \<open>Long\<close>: its value.\<close>

definition long_value :: "64 word \<Rightarrow> nat" where
  "long_value v = unat v"

section \<open>Single-device DC scraper (\<open>scrapeHeliumRewards\<close>)\<close>

text \<open>\<open>containsTargetDevice(message, targetFormats)\<close> of \<open>src/scrapeHeliumRewards.js\<close>.\<close>

definition containsTargetDevice :: "decoded_share \<Rightarrow> device_key_formats \<Rightarrow> bool" where
  "containsTargetDevice message targetFormats =
     (if list_ex (\<lambda>v. str_includes (messageStr message) v) (format_values targetFormats) then True
      else list_ex (\<lambda>v. str_includes (enrichedStr message) v) (format_values targetFormats))"

text \<open>\<open>decoded.gatewayReward?.dcTransferReward?.low || 0\<close>.\<close>

definition rewardAmount_of :: "decoded_share \<Rightarrow> int" where
  "rewardAmount_of decoded =
     (case gatewayReward decoded of
        None \<Rightarrow> 0
      | Some gr \<Rightarrow>
          (case dcTransferReward gr of
             None \<Rightarrow> 0
           | Some v \<Rightarrow> if long_low v = 0 then 0 else long_low v))"

record reward_entry =
  entry_file :: string
  entry_timestamp :: int
  entry_message :: decoded_share
  rewardAmount :: int

record scrape_state =
  mobileRewards :: "reward_entry list"
  dc_messageCount :: nat
  dc_foundCount :: nat

text \<open>One turn of the frame loop of \<open>scrapeHeliumRewards\<close>.\<close>

definition scrape_frame ::
  "decoder \<Rightarrow> device_key_formats \<Rightarrow> string \<Rightarrow> int \<Rightarrow> scrape_state \<Rightarrow> buffer \<Rightarrow> scrape_state" where
  "scrape_frame decode targetFormats file timestamp st frame =
     (let st1 = st\<lparr>dc_messageCount := dc_messageCount st + 1\<rparr>
      in case decode frame of
           Inl e \<Rightarrow> st1
         | Inr decoded \<Rightarrow>
             if containsTargetDevice decoded targetFormats then
               st1\<lparr>dc_foundCount := dc_foundCount st1 + 1,
                    mobileRewards := mobileRewards st1
                      @ [\<lparr>entry_file = file, entry_timestamp = timestamp,
                           entry_message = decoded, rewardAmount = rewardAmount_of decoded\<rparr>]\<rparr>
             else st1)"

definition scrape_file_step ::
  "decoder \<Rightarrow> device_key_formats \<Rightarrow> reward_entry list \<Rightarrow> s3_file \<Rightarrow> reward_entry list" where
  "scrape_file_step decode targetFormats rewards f =
     (case file_body f of
        Inl e \<Rightarrow> rewards
      | Inr None \<Rightarrow> rewards
      | Inr (Some stream) \<Rightarrow>
          mobileRewards
            (foldl (scrape_frame decode targetFormats (file_key f) (file_ts f))
               \<lparr>mobileRewards = rewards, dc_messageCount = 0, dc_foundCount = 0\<rparr>
               (framedMessages stream)))"

text \<open>\<open>mobileRewards.reduce((sum, reward) => sum + reward.rewardAmount, 0)\<close>.\<close>

definition totalRewards :: "reward_entry list \<Rightarrow> int" where
  "totalRewards rewards = foldl (\<lambda>sum reward. sum + rewardAmount reward) 0 rewards"

section \<open>Debug scraper (\<open>scripts/scrape-device.js\<close>)\<close>

text \<open>\<open>dcTransfer ? parseInt(dcTransfer.toString(), 10) : 0\<close>; a \<open>Long\<close> is an object,
  so it is truthy whatever its value.\<close>

definition dc_of :: "decoded_share \<Rightarrow> nat" where
  "dc_of decoded =
     (case gatewayReward decoded of
        None \<Rightarrow> 0
      | Some gr \<Rightarrow> (case dcTransferReward gr of None \<Rightarrow> 0 | Some v \<Rightarrow> long_value v))"

text \<open>\<open>containsTargetDevice\<close> of the script: only the message text, and no empty format.\<close>

definition containsTargetDevice_script :: "decoded_share \<Rightarrow> device_key_formats \<Rightarrow> bool" where
  "containsTargetDevice_script decodedMessage targetFormats =
     list_ex (\<lambda>v. v \<noteq> [] \<and> str_includes (messageStr decodedMessage) v) (format_values targetFormats)"

record device_totals =
  totalsByDay :: "string \<rightharpoonup> nat"
  totalDc :: nat
  totalMatches :: nat
  totalFrames :: nat

text \<open>One turn of the frame loop of \<open>scrape\<close>, for a file of day \<open>day\<close>.\<close>

definition script_frame ::
  "decoder \<Rightarrow> device_key_formats \<Rightarrow> string \<Rightarrow> device_totals \<Rightarrow> buffer \<Rightarrow> device_totals" where
  "script_frame decode targetFormats day st frame =
     (let st1 = st\<lparr>totalFrames := totalFrames st + 1\<rparr>
      in case decode frame of
           Inl e \<Rightarrow> st1
         | Inr decoded \<Rightarrow>
             if \<not> containsTargetDevice_script decoded targetFormats then st1
             else
               (let st2 = st1\<lparr>totalMatches := totalMatches st1 + 1\<rparr>;
                    dc = dc_of decoded
                in if dc = 0 then st2
                   else st2\<lparr>totalDc := totalDc st2 + dc,
                            totalsByDay := (totalsByDay st2)
                              (day \<mapsto> (case totalsByDay st2 day of None \<Rightarrow> 0 | Some t \<Rightarrow> t) + dc)\<rparr>))"

section \<open>Fleet scan (\<open>topEarnersScheduledScrape\<close>)\<close>

definition preferred :: "string list" where
  "preferred = [''gateway'', ''gatewayKey'', ''gatewayPubkey'', ''gatewayPubKey'',
                ''hotspot'', ''hotspotKey'', ''hotspotPubkey'', ''hotspotPubKey'']"

text \<open>The loop \<open>for (const k of preferred)\<close>: the first preferred property that is bytes.\<close>

fun first_preferred :: "(string \<Rightarrow> field_value option) \<Rightarrow> string list \<Rightarrow> buffer option" where
  "first_preferred prop [] = None"
| "first_preferred prop (k # ks) =
     (case prop k of
        Some (Bytes b) \<Rightarrow> Some b
      | _ \<Rightarrow> first_preferred prop ks)"

text \<open>The loop over \<open>Object.entries(gatewayReward)\<close>: the first bytes among the fields
  whose name does not contain \<open>reward\<close>.\<close>

fun first_bytes :: "(string \<times> field_value) list \<Rightarrow> buffer option" where
  "first_bytes [] = None"
| "first_bytes ((k, v) # rest) =
     (if str_includes (toLowerCase k) ''reward'' then first_bytes rest
      else (case v of Bytes b \<Rightarrow> Some b | Other s \<Rightarrow> first_bytes rest))"

text \<open>
  \<open>pickDeviceBytesFromGatewayReward\<close>. \<open>dcTransferReward\<close> is an entry of the object
  too; its name contains \<open>reward\<close>, so the second loop passes over it.
\<close>

definition pickDeviceBytesFromGatewayReward :: "gateway_reward option \<Rightarrow> buffer option" where
  "pickDeviceBytesFromGatewayReward reward =
     (case reward of
        None \<Rightarrow> None
      | Some gr \<Rightarrow>
          (case first_preferred (property gr) preferred of
             Some b \<Rightarrow> Some b
           | None \<Rightarrow> first_bytes (ownFields gr)))"

definition deviceKeyStringFromDecoded :: "decoded_share \<Rightarrow> string option" where
  "deviceKeyStringFromDecoded decoded =
     (case pickDeviceBytesFromGatewayReward (gatewayReward decoded) of
        None \<Rightarrow> None
      | Some bytes \<Rightarrow> if bytes = [] then None else Some (base58checkEncode bytes 0))"

text \<open>\<open>Array.from(new Set(CONFIG.WINDOWS_DAYS)).sort((a, b) => a - b)\<close>.\<close>

definition WINDOWS_DAYS :: "nat list \<Rightarrow> nat list" where
  "WINDOWS_DAYS config = sort (remdups config)"

definition cutoff :: "int \<Rightarrow> nat \<Rightarrow> int" where
  "cutoff endTs d = endTs - int d * 24 * 60 * 60 * 1000"

type_synonym totals = "nat \<Rightarrow> (string \<rightharpoonup> nat)"

text \<open>\<open>m.get(deviceKey) || 0\<close>.\<close>

definition total_of :: "totals \<Rightarrow> nat \<Rightarrow> string \<Rightarrow> nat" where
  "total_of totalsByWindow windowDays deviceKey =
     (case totalsByWindow windowDays deviceKey of None \<Rightarrow> 0 | Some t \<Rightarrow> t)"

text \<open>The loop \<open>for (const windowDays of WINDOWS_DAYS)\<close> for one counted reward.\<close>

fun add_to_windows :: "int \<Rightarrow> int \<Rightarrow> string \<Rightarrow> nat \<Rightarrow> nat list \<Rightarrow> totals \<Rightarrow> totals" where
  "add_to_windows endTs ts deviceKey dc [] totalsByWindow = totalsByWindow"
| "add_to_windows endTs ts deviceKey dc (windowDays # rest) totalsByWindow =
     (if ts < cutoff endTs windowDays then add_to_windows endTs ts deviceKey dc rest totalsByWindow
      else add_to_windows endTs ts deviceKey dc rest
             (totalsByWindow(windowDays := (totalsByWindow windowDays)
                (deviceKey \<mapsto> total_of totalsByWindow windowDays deviceKey + dc))))"

record run_state =
  totalsByWindow :: totals
  framesScanned :: nat
  decodedOk :: nat
  rewardsCounted :: nat
  deviceKeysExtracted :: nat

text \<open>One turn of the frame loop of \<open>run\<close>, for a file of timestamp \<open>ts\<close>.\<close>

definition run_frame :: "decoder \<Rightarrow> nat list \<Rightarrow> int \<Rightarrow> int \<Rightarrow> run_state \<Rightarrow> buffer \<Rightarrow> run_state" where
  "run_frame decode windows endTs ts st frame =
     (let st1 = st\<lparr>framesScanned := framesScanned st + 1\<rparr>
      in case decode frame of
           Inl e \<Rightarrow> st1
         | Inr decoded \<Rightarrow>
             (let st2 = st1\<lparr>decodedOk := decodedOk st1 + 1\<rparr>;
                  dc = dc_of decoded
              in if dc = 0 then st2
                 else
                   (case deviceKeyStringFromDecoded decoded of
                      None \<Rightarrow> st2
                    | Some deviceKey \<Rightarrow>
                        if deviceKey = [] then st2
                        else st2\<lparr>deviceKeysExtracted := deviceKeysExtracted st2 + 1,
                                 rewardsCounted := rewardsCounted st2 + 1,
                                 totalsByWindow :=
                                   add_to_windows endTs ts deviceKey dc windows
                                     (totalsByWindow st2)\<rparr>)))"

text \<open>
  The loop over the listed files of \<open>run\<close>. Fetching is not inside a \<open>try\<close>: an
  exception ends the scan.
\<close>

fun run_files :: "decoder \<Rightarrow> nat list \<Rightarrow> int \<Rightarrow> run_state \<Rightarrow> s3_file list \<Rightarrow> js_error + run_state" where
  "run_files decode windows endTs st [] = Inr st"
| "run_files decode windows endTs st (f # files) =
     (case file_body f of
        Inl e \<Rightarrow> Inl e
      | Inr None \<Rightarrow> run_files decode windows endTs st files
      | Inr (Some stream) \<Rightarrow>
          run_files decode windows endTs
            (foldl (run_frame decode windows endTs (file_ts f)) st (framedMessages stream)) files)"

definition run_init :: run_state where
  "run_init = \<lparr>totalsByWindow = (\<lambda>w. Map.empty), framesScanned = 0, decodedOk = 0,
                rewardsCounted = 0, deviceKeysExtracted = 0\<rparr>"

definition run_scan :: "decoder \<Rightarrow> nat list \<Rightarrow> int \<Rightarrow> s3_file list \<Rightarrow> js_error + run_state" where
  "run_scan decode config endTs files = run_files decode (WINDOWS_DAYS config) endTs run_init files"

text \<open>The invariant of the running totals: a shorter window never holds more than a longer one.\<close>

definition window_monotone :: "nat list \<Rightarrow> totals \<Rightarrow> bool" where
  "window_monotone ws tot =
     (\<forall>w1 w2 dev. w1 \<in> set ws \<and> w2 \<in> set ws \<and> w1 < w2
        \<longrightarrow> total_of tot w1 dev \<le> total_of tot w2 dev)"

section \<open>Object listing (\<open>listGzKeysInRange\<close>)\<close>

record list_response =
  Contents :: "string list"
  IsTruncated :: bool
  NextContinuationToken :: "string option"

record s3_key =
  key :: string
  ts :: int

definition is_digit :: "char \<Rightarrow> bool" where
  "is_digit c = (48 \<le> (of_char c :: nat) \<and> (of_char c :: nat) \<le> 57)"

text \<open>\<open>key.match(/\.(\d{13})\.gz$/)\<close>: the group, when the key ends that way.\<close>

definition match_timestamp :: "string \<Rightarrow> string option" where
  "match_timestamp k =
     (if 17 \<le> length k then
        (let tail = drop (length k - 17) k; digits = take 13 (drop 1 tail)
         in if take 1 tail = ''.'' \<and> list_all is_digit digits \<and> drop 14 tail = ''.gz''
            then Some digits else None)
      else None)"

text \<open>\<open>parseInt(digits, 10)\<close> on a string of decimal digits.\<close>

definition parseInt10 :: "string \<Rightarrow> int" where
  "parseInt10 digits = foldl (\<lambda>acc c. 10 * acc + (int (of_char c) - 48)) 0 digits"

definition key_ts :: "string \<Rightarrow> int" where
  "key_ts k = (case match_timestamp k of Some digits \<Rightarrow> parseInt10 digits | None \<Rightarrow> 0)"

text \<open>The loop over the contents of one response, pushing onto \<open>keys\<close>.\<close>

fun push_keys :: "int \<Rightarrow> int \<Rightarrow> string list \<Rightarrow> s3_key list \<Rightarrow> s3_key list" where
  "push_keys startTs endTs [] keys = keys"
| "push_keys startTs endTs (k # contents) keys =
     (if \<not> endsWith k ''.gz'' then push_keys startTs endTs contents keys
      else
        (let t = key_ts k
         in if startTs \<le> t \<and> t \<le> endTs
            then push_keys startTs endTs contents (keys @ [\<lparr>key = k, ts = t\<rparr>])
            else push_keys startTs endTs contents keys))"

text \<open>\<open>!resp.IsTruncated || !resp.NextContinuationToken\<close>: an empty token is falsy.\<close>

definition last_page :: "list_response \<Rightarrow> bool" where
  "last_page resp =
     (\<not> IsTruncated resp \<or> NextContinuationToken resp = None \<or> NextContinuationToken resp = Some [])"

text \<open>
  The \<open>while (true)\<close> loop. \<open>send\<close> is the store: a request with a prefix and a
  continuation token gives a response or throws. The loop may never end; then the result
  is \<open>None\<close>.
\<close>

partial_function (option) list_loop ::
  "(string \<Rightarrow> string option \<Rightarrow> js_error + list_response) \<Rightarrow> string \<Rightarrow> int \<Rightarrow> int
   \<Rightarrow> string option \<Rightarrow> s3_key list \<Rightarrow> (js_error + s3_key list) option" where
  "list_loop send prefix startTs endTs continuationToken keys =
     (case send prefix continuationToken of
        Inl e \<Rightarrow> Some (Inl e)
      | Inr resp \<Rightarrow>
          (let keys' = push_keys startTs endTs (Contents resp) keys
           in if last_page resp then Some (Inr keys')
              else list_loop send prefix startTs endTs (NextContinuationToken resp) keys'))"

definition listGzKeysInRange ::
  "(string \<Rightarrow> string option \<Rightarrow> js_error + list_response) \<Rightarrow> string \<Rightarrow> int \<Rightarrow> int
   \<Rightarrow> (js_error + s3_key list) option" where
  "listGzKeysInRange send prefix startTs endTs =
     (case list_loop send prefix startTs endTs None [] of
        None \<Rightarrow> None
      | Some (Inl e) \<Rightarrow> Some (Inl e)
      | Some (Inr keys) \<Rightarrow> Some (Inr (sort_key ts keys)))"

text \<open>
  A run of the store from a token: the responses it gives one after the other, each
  truncated with a token for the next, up to the first that is the last page.
\<close>

inductive listing ::
  "(string \<Rightarrow> string option \<Rightarrow> js_error + list_response) \<Rightarrow> string \<Rightarrow> string option
   \<Rightarrow> list_response list \<Rightarrow> bool" where
  listing_last: "send prefix token = Inr resp \<Longrightarrow> last_page resp \<Longrightarrow> listing send prefix token [resp]"
| listing_more: "send prefix token = Inr resp \<Longrightarrow> \<not> last_page resp
     \<Longrightarrow> listing send prefix (NextContinuationToken resp) resps
     \<Longrightarrow> listing send prefix token (resp # resps)"

code_pred listing .

section \<open>Frame decoder: proofs\<close>

declare drain.simps [simp del]

lemma drain_not_ready: "\<not> frame_ready b \<Longrightarrow> drain b = ([], b)"
  by (subst drain.simps) (auto simp: frame_ready_def Let_def)

lemma drain_ready:
  "frame_ready b \<Longrightarrow>
   drain b = (take (readUInt32BE b) (drop 4 b) # fst (drain (drop (4 + readUInt32BE b) b)),
              snd (drain (drop (4 + readUInt32BE b) b)))"
  by (subst drain.simps) (auto simp: frame_ready_def Let_def)

lemma readUInt32BE_append: "4 \<le> length b \<Longrightarrow> readUInt32BE (b @ c) = readUInt32BE b"
proof -
  assume "4 \<le> length b"
  then obtain b0 b1 b2 b3 r where "b = b0 # b1 # b2 # b3 # r"
    by (cases b; cases "tl b"; cases "tl (tl b)"; cases "tl (tl (tl b))") auto
  then show ?thesis by simp
qed

lemma frame_ready_append: "frame_ready b \<Longrightarrow> frame_ready (b @ c)"
  by (auto simp: frame_ready_def readUInt32BE_append)

lemma drain_rest_stuck: "\<not> frame_ready (snd (drain b))"
proof (induction b rule: drain.induct)
  case (1 b)
  show ?case
  proof (cases "frame_ready b")
    case True
    then have "snd (drain b) = snd (drain (drop (4 + readUInt32BE b) b))"
      by (simp add: drain_ready)
    moreover have "\<not> frame_ready (snd (drain (drop (4 + readUInt32BE b) b)))"
      using True "1.IH" [OF _ refl _ refl] by (auto simp: frame_ready_def)
    ultimately show ?thesis by simp
  next
    case False
    then show ?thesis by (simp add: drain_not_ready)
  qed
qed

lemma drain_append:
  "drain (b @ c) = (fst (drain b) @ fst (drain (snd (drain b) @ c)), snd (drain (snd (drain b) @ c)))"
proof (induction b rule: drain.induct)
  case (1 b)
  show ?case
  proof (cases "frame_ready b")
    case True
    let ?n = "readUInt32BE b"
    have len: "4 + ?n \<le> length b" and ge: "4 \<le> length b"
      using True by (auto simp: frame_ready_def)
    have IH: "drain (drop (4 + ?n) b @ c) =
        (fst (drain (drop (4 + ?n) b)) @ fst (drain (snd (drain (drop (4 + ?n) b)) @ c)),
         snd (drain (snd (drain (drop (4 + ?n) b)) @ c)))"
      using "1.IH" [OF ge refl _ refl] len by auto
    have rd: "readUInt32BE (b @ c) = ?n" using ge by (rule readUInt32BE_append)
    have "drain (b @ c) =
        (take ?n (drop 4 (b @ c)) # fst (drain (drop (4 + ?n) (b @ c))),
         snd (drain (drop (4 + ?n) (b @ c))))"
      using drain_ready [OF frame_ready_append [OF True, of c]] by (simp add: rd)
    moreover have "drop (4 + ?n) (b @ c) = drop (4 + ?n) b @ c" using len by simp
    moreover have "take ?n (drop 4 (b @ c)) = take ?n (drop 4 b)" using len by simp
    ultimately show ?thesis
      using IH by (simp add: drain_ready [OF True])
  next
    case False
    then show ?thesis by (simp add: drain_not_ready)
  qed
qed

lemma framedMessages_from_drain:
  "\<not> frame_ready b \<Longrightarrow> framedMessages_from b stream = fst (drain (b @ concat stream))"
proof (induction stream arbitrary: b)
  case Nil
  then show ?case by (simp add: drain_not_ready)
next
  case (Cons chunk stream)
  have "framedMessages_from (snd (drain (b @ chunk))) stream =
        fst (drain (snd (drain (b @ chunk)) @ concat stream))"
    by (rule Cons.IH) (rule drain_rest_stuck)
  moreover have "drain ((b @ chunk) @ concat stream) =
      (fst (drain (b @ chunk)) @ fst (drain (snd (drain (b @ chunk)) @ concat stream)),
       snd (drain (snd (drain (b @ chunk)) @ concat stream)))"
    by (rule drain_append)
  ultimately show ?case by (simp add: Let_def)
qed

lemma framedMessages_drain: "framedMessages stream = fst (drain (concat stream))"
  using framedMessages_from_drain [of "[]" stream]
  by (simp add: framedMessages_def frame_ready_def)

lemma final_buffer_drain:
  "\<not> frame_ready b \<Longrightarrow> final_buffer b stream = snd (drain (b @ concat stream))"
proof (induction stream arbitrary: b)
  case Nil
  then show ?case by (simp add: drain_not_ready)
next
  case (Cons chunk stream)
  have "final_buffer (snd (drain (b @ chunk))) stream =
        snd (drain (snd (drain (b @ chunk)) @ concat stream))"
    by (rule Cons.IH) (rule drain_rest_stuck)
  moreover have "drain ((b @ chunk) @ concat stream) =
      (fst (drain (b @ chunk)) @ fst (drain (snd (drain (b @ chunk)) @ concat stream)),
       snd (drain (snd (drain (b @ chunk)) @ concat stream)))"
    by (rule drain_append)
  ultimately show ?case by simp
qed

lemma split4:
  fixes n :: nat
  assumes "n < 2 ^ 32"
  shows "((n div 2 ^ 24) mod 256) * 2 ^ 24 + ((n div 2 ^ 16) mod 256) * 2 ^ 16
         + ((n div 2 ^ 8) mod 256) * 2 ^ 8 + n mod 256 = n"
proof -
  define a where "a = n div 256"
  define b where "b = a div 256"
  define c where "c = b div 256"
  have n: "n = a * 256 + n mod 256" by (simp add: a_def)
  have a: "a = b * 256 + a mod 256" by (simp add: b_def)
  have b: "b = c * 256 + b mod 256" by (simp add: c_def)
  have d16: "n div 2 ^ 16 = b" by (simp add: a_def b_def div_mult2_eq)
  have d24: "n div 2 ^ 24 = c" by (simp add: a_def b_def c_def div_mult2_eq)
  have "c < 256" using assms by (simp add: d24 [symmetric])
  then have c: "c mod 256 = c" by simp
  have d8: "n div 2 ^ 8 = a" by (simp add: a_def)
  show ?thesis
    unfolding d8 d16 d24 c using n a b by simp
qed

lemma readUInt32BE_write: "n < 2 ^ 32 \<Longrightarrow> readUInt32BE (writeUInt32BE n @ x) = n"
  using split4 [of n] by (simp add: writeUInt32BE_def unat_of_nat)

lemma divmod256: "d < 256 \<Longrightarrow> (m * 256 + d) div 256 = m \<and> (m * 256 + d) mod 256 = (d::nat)"
  by simp

lemma four_bytes:
  assumes "4 \<le> length b"
  obtains b0 b1 b2 b3 r where "b = b0 # b1 # b2 # b3 # r"
  using assms by (cases b; cases "tl b"; cases "tl (tl b)"; cases "tl (tl (tl b))") auto

lemma write_read: "4 \<le> length b \<Longrightarrow> writeUInt32BE (readUInt32BE b) = take 4 b"
proof -
  assume "4 \<le> length b"
  then obtain b0 b1 b2 b3 r where b: "b = b0 # b1 # b2 # b3 # r"
    by (rule four_bytes)
  define n where "n = unat b0 * 2 ^ 24 + unat b1 * 2 ^ 16 + unat b2 * 2 ^ 8 + unat b3"
  have lt: "unat b0 < 256" "unat b1 < 256" "unat b2 < 256" "unat b3 < 256"
    using unsigned_less [of b0] unsigned_less [of b1] unsigned_less [of b2] unsigned_less [of b3]
    by simp_all
  have n0: "n = ((unat b0 * 256 + unat b1) * 256 + unat b2) * 256 + unat b3"
    by (simp add: n_def)
  have d8: "n div 256 = (unat b0 * 256 + unat b1) * 256 + unat b2" and m8: "n mod 256 = unat b3"
    using divmod256 [OF lt(4), of "(unat b0 * 256 + unat b1) * 256 + unat b2"] n0 by simp_all
  have d16: "n div 256 div 256 = unat b0 * 256 + unat b1" and m16: "n div 256 mod 256 = unat b2"
    using divmod256 [OF lt(3), of "unat b0 * 256 + unat b1"] d8 by simp_all
  have d24: "n div 256 div 256 div 256 = unat b0" and m24: "n div 256 div 256 mod 256 = unat b1"
    using divmod256 [OF lt(2), of "unat b0"] d16 by simp_all
  have e8: "n div 2 ^ 8 = n div 256" by simp
  have e16: "n div 2 ^ 16 = n div 256 div 256" by (simp add: div_mult2_eq)
  have e24: "n div 2 ^ 24 = n div 256 div 256 div 256" by (simp add: div_mult2_eq)
  have w: "\<And>k. (of_nat k :: byte) = of_nat (k mod 256)"
    by (simp add: word_eq_iff_unsigned [where ?'a = nat] unat_of_nat)
  have f0: "(of_nat (n div 2 ^ 24) :: byte) = b0" by (simp only: e24 d24) simp
  have f1: "(of_nat (n div 2 ^ 16) :: byte) = b1"
    by (subst w) (simp only: e16 m24, simp)
  have f2: "(of_nat (n div 2 ^ 8) :: byte) = b2"
    by (subst w) (simp only: e8 m16, simp)
  have f3: "(of_nat n :: byte) = b3"
    by (subst w) (simp only: m8, simp)
  have rd: "readUInt32BE b = n" by (simp add: b n_def)
  have wr: "writeUInt32BE n = [b0, b1, b2, b3]"
    by (simp only: writeUInt32BE_def f0 f1 f2 f3)
  have tk: "take 4 b = [b0, b1, b2, b3]" by (simp add: b)
  show ?thesis by (simp only: rd wr tk)
qed

lemma length_writeUInt32BE: "length (writeUInt32BE n) = 4"
  by (simp add: writeUInt32BE_def)

text \<open>A buffer is the wire forms of the frames the loop yields from it, then what it leaves.\<close>

lemma drain_decompose: "b = concat (map frame_bytes (fst (drain b))) @ snd (drain b)"
proof (induction b rule: drain.induct)
  case (1 b)
  show ?case
  proof (cases "frame_ready b")
    case True
    let ?n = "readUInt32BE b"
    have len: "4 + ?n \<le> length b" and ge: "4 \<le> length b"
      using True by (auto simp: frame_ready_def)
    have IH: "drop (4 + ?n) b =
        concat (map frame_bytes (fst (drain (drop (4 + ?n) b)))) @ snd (drain (drop (4 + ?n) b))"
      using "1.IH" [OF ge refl _ refl] len by auto
    have "length (take ?n (drop 4 b)) = ?n" using len by simp
    then have fb: "frame_bytes (take ?n (drop 4 b)) = take 4 b @ take ?n (drop 4 b)"
      by (simp add: frame_bytes_def write_read [OF ge])
    have "b = take 4 b @ take ?n (drop 4 b) @ drop (4 + ?n) b"
      by (metis add.commute append_take_drop_id drop_drop)
    then have "b = frame_bytes (take ?n (drop 4 b)) @ drop (4 + ?n) b"
      using fb by simp
    then have "b = frame_bytes (take ?n (drop 4 b))
                 @ concat (map frame_bytes (fst (drain (drop (4 + ?n) b))))
                 @ snd (drain (drop (4 + ?n) b))"
      using IH by simp
    then show ?thesis by (simp add: drain_ready [OF True])
  next
    case False
    then show ?thesis by (simp add: drain_not_ready)
  qed
qed

text \<open>Frames written one after the other, then a buffer with no complete frame: the loop
  yields exactly those frames and leaves that buffer.\<close>

lemma drain_frames:
  "list_all (\<lambda>m. length m < 2 ^ 32) frames \<Longrightarrow> \<not> frame_ready partial
   \<Longrightarrow> drain (concat (map frame_bytes frames) @ partial) = (frames, partial)"
proof (induction frames)
  case Nil
  then show ?case by (simp add: drain_not_ready)
next
  case (Cons m frames)
  let ?rest = "concat (map frame_bytes frames) @ partial"
  let ?b = "frame_bytes m @ ?rest"
  have lt: "length m < 2 ^ 32" using Cons.prems by simp
  have rd: "readUInt32BE ?b = length m"
    using readUInt32BE_write [OF lt] by (simp add: frame_bytes_def)
  have len: "length (frame_bytes m) = 4 + length m"
    by (simp add: frame_bytes_def length_writeUInt32BE)
  have ready: "frame_ready ?b"
    using rd len by (simp add: frame_ready_def)
  have dr: "drop (4 + length m) ?b = ?rest" using len by simp
  have "drop 4 ?b = m @ ?rest"
    using length_writeUInt32BE [of "length m"] by (simp add: frame_bytes_def)
  then have tk: "take (length m) (drop 4 ?b) = m" by simp
  have IH: "drain ?rest = (frames, partial)" using Cons by simp
  have "drain ?b = (take (readUInt32BE ?b) (drop 4 ?b) # fst (drain (drop (4 + readUInt32BE ?b) ?b)),
                    snd (drain (drop (4 + readUInt32BE ?b) ?b)))"
    by (rule drain_ready [OF ready])
  then have "drain ?b = (m # frames, partial)"
    by (simp only: rd tk dr IH fst_conv snd_conv)
  then show ?case by simp
qed

section \<open>Base58 and SHA-256: proofs\<close>

declare to_digits.simps [simp del]

lemma to_digits_zero [simp]: "to_digits b 0 = []"
  by (subst to_digits.simps) simp

lemma to_digits_step: "2 \<le> b \<Longrightarrow> 0 < n \<Longrightarrow> to_digits b n = to_digits b (n div b) @ [n mod b]"
  by (subst to_digits.simps) simp

lemma from_digits_snoc: "from_digits b (ds @ [d]) = from_digits b ds * b + d"
  by (simp add: from_digits_def)

lemma from_digits_Nil [simp]: "from_digits b [] = 0"
  by (simp add: from_digits_def)

lemma from_digits_pos:
  "0 < b \<Longrightarrow> ds \<noteq> [] \<Longrightarrow> hd ds \<noteq> 0 \<Longrightarrow> 0 < from_digits b ds"
proof (induction ds rule: rev_induct)
  case Nil
  then show ?case by simp
next
  case (snoc d ds)
  show ?case
  proof (cases "ds = []")
    case True
    with snoc.prems show ?thesis by (simp add: from_digits_def)
  next
    case False
    with snoc have "0 < from_digits b ds" by simp
    with snoc.prems(1) show ?thesis by (simp add: from_digits_snoc)
  qed
qed

lemma to_digits_from_digits:
  "2 \<le> b \<Longrightarrow> list_all (\<lambda>d. d < b) ds \<Longrightarrow> ds = [] \<or> hd ds \<noteq> 0
   \<Longrightarrow> to_digits b (from_digits b ds) = ds"
proof (induction ds rule: rev_induct)
  case Nil
  then show ?case by simp
next
  case (snoc d ds)
  have d: "d < b" using snoc.prems(2) by simp
  have hd: "ds = [] \<or> hd ds \<noteq> 0" using snoc.prems(3) by (cases ds) auto
  have IH: "to_digits b (from_digits b ds) = ds"
    using snoc.IH snoc.prems(1,2) hd by simp
  have pos: "0 < from_digits b ds * b + d"
  proof (cases "ds = []")
    case True
    with snoc.prems(3) show ?thesis by simp
  next
    case False
    with hd snoc.prems(1) have "0 < from_digits b ds" by (simp add: from_digits_pos)
    with snoc.prems(1) show ?thesis by simp
  qed
  have "to_digits b (from_digits b ds * b + d)
        = to_digits b ((from_digits b ds * b + d) div b) @ [(from_digits b ds * b + d) mod b]"
    by (rule to_digits_step [OF snoc.prems(1) pos])
  also have "(from_digits b ds * b + d) div b = from_digits b ds" using d by simp
  also have "(from_digits b ds * b + d) mod b = d" using d by simp
  finally show ?case by (simp add: from_digits_snoc IH)
qed

lemma to_digits_props:
  "2 \<le> b \<Longrightarrow> list_all (\<lambda>d. d < b) (to_digits b n) \<and> (to_digits b n = [] \<or> hd (to_digits b n) \<noteq> 0)"
proof (induction b n rule: to_digits.induct)
  case (1 b n)
  show ?case
  proof (cases "n = 0")
    case True
    then show ?thesis by simp
  next
    case False
    then have step: "to_digits b n = to_digits b (n div b) @ [n mod b]"
      using "1.prems" by (simp add: to_digits_step)
    have IH: "list_all (\<lambda>d. d < b) (to_digits b (n div b))
              \<and> (to_digits b (n div b) = [] \<or> hd (to_digits b (n div b)) \<noteq> 0)"
      using "1.IH" False "1.prems" by simp
    have m: "n mod b < b" using "1.prems" by simp
    show ?thesis
    proof (cases "to_digits b (n div b) = []")
      case True
      have "n div b = 0"
      proof (rule ccontr)
        assume "n div b \<noteq> 0"
        then have "to_digits b (n div b) = to_digits b (n div b div b) @ [n div b mod b]"
          using "1.prems" by (simp add: to_digits_step)
        with True show False by simp
      qed
      then have "n < b" using "1.prems" by (simp add: div_eq_0_iff)
      then have "n mod b \<noteq> 0" using False by simp
      with True m show ?thesis by (simp add: step)
    next
      case False
      with IH m show ?thesis by (simp add: step)
    qed
  qed
qed

lemma distinct_ALPHABET: "distinct ALPHABET"
  by (simp add: ALPHABET_def)

lemma length_ALPHABET: "length ALPHABET = 58"
  by (simp add: ALPHABET_def)

lemma BASE_MAP_nth: "d < 58 \<Longrightarrow> BASE_MAP (ALPHABET ! d) = Some d"
  unfolding BASE_MAP_def
  using map_of_zip_nth [of ALPHABET "[0..<58]" d] distinct_ALPHABET length_ALPHABET
  by simp

lemma base58_values_map:
  "list_all (\<lambda>d. d < 58) ds \<Longrightarrow> base58_values (map (\<lambda>d. ALPHABET ! d) ds) = Some ds"
  by (induction ds) (simp_all add: BASE_MAP_nth)

lemma from_digits_to_digits: "2 \<le> b \<Longrightarrow> from_digits b (to_digits b n) = n"
proof (induction b n rule: to_digits.induct)
  case (1 b n)
  show ?case
  proof (cases "n = 0")
    case True
    then show ?thesis by simp
  next
    case False
    then have "to_digits b n = to_digits b (n div b) @ [n mod b]"
      using "1.prems" by (simp add: to_digits_step)
    moreover have "from_digits b (to_digits b (n div b)) = n div b"
      using "1.IH" False "1.prems" by simp
    ultimately show ?thesis by (simp add: from_digits_snoc)
  qed
qed

lemma takeWhile_eq_replicate:
  "takeWhile (\<lambda>x. x = a) xs = replicate (length (takeWhile (\<lambda>x. x = a) xs)) a"
  by (induction xs) auto

lemma takeWhile_leader:
  "ys = [] \<or> hd ys \<noteq> a \<Longrightarrow> takeWhile (\<lambda>x. x = a) (replicate z a @ ys) = replicate z a"
  by (induction z) (cases ys, auto)

lemma bs58_roundtrip: "bs58_decode (bs58_encode source) = Inr source"
proof -
  define z where "z = length (takeWhile (\<lambda>b. b = 0) source)"
  define rest where "rest = drop z source"
  define ds where "ds = to_digits 58 (from_digits 256 (map unat rest))"
  define str where "str = map (\<lambda>d. ALPHABET ! d) ds"
  have enc: "bs58_encode source = replicate z (ALPHABET ! 0) @ str"
    by (simp add: bs58_encode_def Let_def z_def rest_def ds_def str_def)
  have rest_dw: "rest = dropWhile (\<lambda>b. b = 0) source"
    by (simp add: rest_def z_def dropWhile_eq_drop)
  have src: "source = replicate z 0 @ rest"
    using takeWhile_dropWhile_id [of "\<lambda>b. b = 0" source]
      takeWhile_eq_replicate [of 0 source]
    by (simp add: rest_dw z_def)
  have rest_hd: "rest = [] \<or> hd rest \<noteq> 0"
    using hd_dropWhile [of "\<lambda>b. b = 0" source] by (auto simp: rest_dw)
  have ds_props: "list_all (\<lambda>d. d < 58) ds \<and> (ds = [] \<or> hd ds \<noteq> 0)"
    unfolding ds_def by (rule to_digits_props) simp
  have str_hd: "str = [] \<or> hd str \<noteq> ALPHABET ! 0"
  proof (cases ds)
    case Nil
    then show ?thesis by (simp add: str_def)
  next
    case (Cons d ds')
    with ds_props have "d < 58" "d \<noteq> 0" by simp_all
    then have "ALPHABET ! d \<noteq> ALPHABET ! 0"
      using distinct_ALPHABET length_ALPHABET by (simp add: nth_eq_iff_index_eq)
    then show ?thesis by (simp add: str_def Cons)
  qed
  have zeroes: "length (takeWhile (\<lambda>c. c = ALPHABET ! 0) (bs58_encode source)) = z"
    by (simp only: enc takeWhile_leader [OF str_hd] length_replicate)
  have dropz: "drop z (bs58_encode source) = str"
    by (simp add: enc)
  have vals: "base58_values str = Some ds"
    unfolding str_def using ds_props by (simp add: base58_values_map)
  have num: "from_digits 58 ds = from_digits 256 (map unat rest)"
    unfolding ds_def by (rule from_digits_to_digits) simp
  have bytes_lt: "list_all (\<lambda>d. d < 256) (map unat rest)"
  proof -
    have "\<And>b :: byte. unat b < 256"
      using unsigned_less [where ?'a = nat and ?'b = 8] by simp
    then show ?thesis by (simp add: list_all_iff)
  qed
  have bytes_hd: "map unat rest = [] \<or> hd (map unat rest) \<noteq> 0"
    using rest_hd by (cases rest) (auto simp: unsigned_eq_0_iff)
  have undo: "to_digits 256 (from_digits 256 (map unat rest)) = map unat rest"
    by (rule to_digits_from_digits [OF _ bytes_lt bytes_hd]) simp
  have "map of_nat (map unat rest) = rest"
    by (simp add: map_idI)
  then have "bs58_decode (bs58_encode source) = Inr (replicate z 0 @ rest)"
    by (simp add: bs58_decode_def Let_def zeroes dropz vals num undo)
  then show ?thesis using src by simp
qed

lemma length_sha256_round: "length (sha256_round s kw) = length s"
  by (induction s kw rule: sha256_round.induct) (simp_all add: Let_def)

lemma length_foldl_round: "length (foldl sha256_round s kws) = length s"
  by (induction kws arbitrary: s) (simp_all add: length_sha256_round)

lemma length_sha256_compress: "length (sha256_compress hs block) = length hs"
  by (simp add: sha256_compress_def length_foldl_round)

lemma length_foldl_compress: "length (foldl sha256_compress hs blocks) = length hs"
  by (induction blocks arbitrary: hs) (simp_all add: length_sha256_compress)

lemma length_H256: "length H256 = 8"
  by (simp add: H256_def primes_below_def upt_rec)

lemma length_concat_words: "length (concat (map bytes_of_word ws)) = 4 * length ws"
  by (induction ws) (simp_all add: bytes_of_word_def)

lemma length_sha256: "length (sha256 m) = 32"
  by (simp add: sha256_def length_concat_words length_foldl_compress length_H256)

lemma slice_checked:
  "length chk = 4 \<Longrightarrow> slice 1 (- 4) (v # payload @ chk) = payload"
  by (simp add: slice_def clamp_index_def Let_def)

lemma slice_checksum: "length (slice 0 4 (sha256 m)) = 4"
  by (simp add: slice_def clamp_index_def Let_def length_sha256)

lemma checked_encoding:
  "\<exists>chk. length chk = 4 \<and> base58checkEncode payload v = bs58_encode (v # payload @ chk)"
proof -
  have "length (slice 0 4 (sha256 (sha256 ([v] @ payload)))) = 4" by (rule slice_checksum)
  moreover have "base58checkEncode payload v
      = bs58_encode (v # payload @ slice 0 4 (sha256 (sha256 ([v] @ payload))))"
    by (simp add: base58checkEncode_def Let_def)
  ultimately show ?thesis by blast
qed

text \<open>What \<open>getTargetDeviceFormats\<close> derives from a checksummed key: the formats of its payload.\<close>

lemma formats_of_encoded:
  "getTargetDeviceFormats (base58checkEncode payload v) =
     Inr \<lparr>original = base58checkEncode payload v, rawBase58 = bs58_encode payload,
          hex = toHex payload, base64 = toBase64 payload,
          base58check = Some (base58checkEncode payload 0)\<rparr>"
proof -
  obtain chk where len: "length chk = 4"
    and enc: "base58checkEncode payload v = bs58_encode (v # payload @ chk)"
    using checked_encoding by blast
  show ?thesis
    unfolding getTargetDeviceFormats_def
    by (simp add: enc bs58_roundtrip slice_checked [OF len] Let_def)
qed

text \<open>The \<open>catch\<close> branch of \<open>getTargetDeviceFormats\<close> never gives the result.\<close>

lemma getTargetDeviceFormats_throws:
  "bs58_decode targetKey = Inl e \<Longrightarrow> getTargetDeviceFormats targetKey = Inl e"
  by (simp add: getTargetDeviceFormats_def)

lemma getTargetDeviceFormats_no_fallback:
  "getTargetDeviceFormats targetKey = Inr tf \<Longrightarrow> base58check tf \<noteq> None"
  by (auto simp: getTargetDeviceFormats_def Let_def split: sum.splits)

section \<open>Object listing: proofs\<close>

lemma push_keys_eq:
  "push_keys startTs endTs contents keys =
     keys @ map (\<lambda>k. \<lparr>key = k, ts = key_ts k\<rparr>)
              (filter (\<lambda>k. endsWith k ''.gz'' \<and> startTs \<le> key_ts k \<and> key_ts k \<le> endTs) contents)"
  by (induction contents arbitrary: keys) (simp_all add: Let_def)

lemma list_loop_listing:
  "listing send prefix token resps \<Longrightarrow>
   list_loop send prefix startTs endTs token keys =
     Some (Inr (keys @ map (\<lambda>k. \<lparr>key = k, ts = key_ts k\<rparr>)
                         (filter (\<lambda>k. endsWith k ''.gz'' \<and> startTs \<le> key_ts k \<and> key_ts k \<le> endTs)
                            (concat (map Contents resps)))))"
proof (induction arbitrary: keys rule: listing.induct)
  case (listing_last send prefix token resp)
  then show ?case
    by (subst list_loop.simps) (simp add: push_keys_eq)
next
  case (listing_more send prefix token resp resps)
  show ?case
    by (subst list_loop.simps)
       (simp add: listing_more.hyps listing_more.IH push_keys_eq)
qed

text \<open>The regular expression, read as a statement about the key.\<close>

lemma match_timestamp_iff:
  "match_timestamp k = Some d \<longleftrightarrow>
     (\<exists>pre. k = pre @ ''.'' @ d @ ''.gz'' \<and> length d = 13 \<and> list_all is_digit d)"
proof
  assume m: "match_timestamp k = Some d"
  then have len: "17 \<le> length k"
    by (auto simp: match_timestamp_def split: if_splits)
  define tail where "tail = drop (length k - 17) k"
  have tl: "take 1 tail = ''.''" "list_all is_digit (take 13 (drop 1 tail))" "drop 14 tail = ''.gz''"
    and d: "d = take 13 (drop 1 tail)"
    using m len by (auto simp: match_timestamp_def Let_def tail_def split: if_splits)
  have ltail: "length tail = 17" using len by (simp add: tail_def)
  have "drop 13 (drop 1 tail) = drop 14 tail" by simp
  then have "drop 1 tail = take 13 (drop 1 tail) @ drop 14 tail"
    using append_take_drop_id [of 13 "drop 1 tail"] by simp
  then have "tail = take 1 tail @ take 13 (drop 1 tail) @ drop 14 tail"
    using append_take_drop_id [of 1 tail] by simp
  then have "tail = ''.'' @ d @ ''.gz''" using tl d by simp
  moreover have "k = take (length k - 17) k @ tail" by (simp add: tail_def)
  moreover have "length d = 13" using d ltail by simp
  ultimately show "\<exists>pre. k = pre @ ''.'' @ d @ ''.gz'' \<and> length d = 13 \<and> list_all is_digit d"
    using tl(2) d by metis
next
  assume "\<exists>pre. k = pre @ ''.'' @ d @ ''.gz'' \<and> length d = 13 \<and> list_all is_digit d"
  then obtain pre where k: "k = pre @ ''.'' @ d @ ''.gz''" and l: "length d = 13"
    and dg: "list_all is_digit d" by blast
  have "drop (length k - 17) k = ''.'' @ d @ ''.gz''"
    using l by (simp add: k)
  then show "match_timestamp k = Some d"
    using l dg by (simp add: match_timestamp_def Let_def k)
qed

section \<open>Fleet scan: proofs\<close>

lemma total_of_upd:
  "total_of (tot(w' := (tot w')(k \<mapsto> v))) w dev = (if w = w' \<and> dev = k then v else total_of tot w dev)"
  by (simp add: total_of_def)

lemma add_to_windows_total:
  "distinct ws \<Longrightarrow>
   total_of (add_to_windows endTs t k dc ws tot) w dev =
     total_of tot w dev + (if w \<in> set ws \<and> \<not> t < cutoff endTs w \<and> dev = k then dc else 0)"
proof (induction ws arbitrary: tot)
  case Nil
  then show ?case by simp
next
  case (Cons w' ws)
  then have d: "distinct ws" and nin: "w' \<notin> set ws" by simp_all
  show ?case
  proof (cases "t < cutoff endTs w'")
    case True
    then show ?thesis using Cons.IH [OF d, of tot] by auto
  next
    case False
    let ?tot' = "tot(w' := (tot w')(k \<mapsto> total_of tot w' k + dc))"
    have "total_of (add_to_windows endTs t k dc (w' # ws) tot) w dev
          = total_of (add_to_windows endTs t k dc ws ?tot') w dev"
      using False by simp
    also have "\<dots> = total_of ?tot' w dev
          + (if w \<in> set ws \<and> \<not> t < cutoff endTs w \<and> dev = k then dc else 0)"
      by (rule Cons.IH [OF d])
    finally show ?thesis using False nin by (auto simp: total_of_upd)
  qed
qed

lemma cutoff_antimono: "w1 < w2 \<Longrightarrow> cutoff endTs w2 < cutoff endTs w1"
  by (simp add: cutoff_def)

lemma add_to_windows_monotone:
  assumes "distinct ws" "window_monotone ws tot"
  shows "window_monotone ws (add_to_windows endTs t k dc ws tot)"
  unfolding window_monotone_def
proof (intro allI impI)
  fix w1 w2 dev
  assume h: "w1 \<in> set ws \<and> w2 \<in> set ws \<and> w1 < w2"
  then have le: "total_of tot w1 dev \<le> total_of tot w2 dev"
    using assms(2) by (simp add: window_monotone_def)
  have c: "cutoff endTs w2 < cutoff endTs w1" using h by (simp add: cutoff_antimono)
  show "total_of (add_to_windows endTs t k dc ws tot) w1 dev
        \<le> total_of (add_to_windows endTs t k dc ws tot) w2 dev"
    using le c h by (auto simp: add_to_windows_total [OF assms(1)])
qed

lemma run_frame_monotone:
  assumes "distinct ws" "window_monotone ws (totalsByWindow st)"
  shows "window_monotone ws (totalsByWindow (run_frame decode ws endTs t st frame))"
  using assms
  by (auto simp: run_frame_def Let_def add_to_windows_monotone split: sum.splits option.splits)

lemma foldl_run_frame_monotone:
  "distinct ws \<Longrightarrow> window_monotone ws (totalsByWindow st)
   \<Longrightarrow> window_monotone ws (totalsByWindow (foldl (run_frame decode ws endTs t) st frames))"
  by (induction frames arbitrary: st) (simp_all add: run_frame_monotone)

lemma run_files_monotone:
  "distinct ws \<Longrightarrow> window_monotone ws (totalsByWindow st)
   \<Longrightarrow> run_files decode ws endTs st files = Inr st'
   \<Longrightarrow> window_monotone ws (totalsByWindow st')"
proof (induction files arbitrary: st)
  case Nil
  then show ?case by simp
next
  case (Cons f files)
  show ?case
  proof (cases "file_body f")
    case (Inl e)
    with Cons.prems show ?thesis by simp
  next
    case (Inr body)
    show ?thesis
    proof (cases body)
      case None
      with Inr Cons show ?thesis by simp
    next
      case (Some stream)
      let ?st = "foldl (run_frame decode ws endTs (file_ts f)) st (framedMessages stream)"
      have "window_monotone ws (totalsByWindow ?st)"
        using Cons.prems(1,2) by (rule foldl_run_frame_monotone)
      moreover have "run_files decode ws endTs ?st files = Inr st'"
        using Cons.prems(3) Inr Some by simp
      ultimately show ?thesis using Cons.IH Cons.prems(1) by blast
    qed
  qed
qed

lemma distinct_WINDOWS_DAYS: "distinct (WINDOWS_DAYS config)"
  by (simp add: WINDOWS_DAYS_def)

lemma ascending_WINDOWS_DAYS: "sorted_wrt (<) (WINDOWS_DAYS config)"
  by (simp add: WINDOWS_DAYS_def strict_sorted_iff)

lemma bs58_encode_Nil: "bs58_encode xs = [] \<Longrightarrow> xs = []"
proof -
  assume e: "bs58_encode xs = []"
  have "bs58_decode [] = Inr []"
    by (simp add: bs58_decode_def to_digits.simps from_digits_def)
  then show ?thesis using bs58_roundtrip [of xs] e by simp
qed

lemma base58checkEncode_not_empty: "base58checkEncode payload v \<noteq> []"
proof
  assume e: "base58checkEncode payload v = []"
  obtain chk where "base58checkEncode payload v = bs58_encode (v # payload @ chk)"
    using checked_encoding by blast
  with e have "bs58_encode (v # payload @ chk) = []" by simp
  then have "v # payload @ chk = []" by (rule bs58_encode_Nil)
  then show False by simp
qed

section \<open>Reward extraction: proofs\<close>

text \<open>\<open>str_includes\<close> is the substring test.\<close>

lemma str_includes_iff: "str_includes s sub \<longleftrightarrow> (\<exists>p q. s = p @ sub @ q)"
proof (induction s)
  case Nil
  then show ?case by auto
next
  case (Cons c cs)
  show ?case
  proof
    assume "str_includes (c # cs) sub"
    then consider "take (length sub) (c # cs) = sub" | "str_includes cs sub" by auto
    then show "\<exists>p q. c # cs = p @ sub @ q"
    proof cases
      case 1
      then have "c # cs = [] @ sub @ drop (length sub) (c # cs)"
        by (metis append_Nil append_take_drop_id)
      then show ?thesis by blast
    next
      case 2
      then obtain p q where "cs = p @ sub @ q" using Cons.IH by blast
      then have "c # cs = (c # p) @ sub @ q" by simp
      then show ?thesis by blast
    qed
  next
    assume "\<exists>p q. c # cs = p @ sub @ q"
    then obtain p q where e: "c # cs = p @ sub @ q" by blast
    show "str_includes (c # cs) sub"
    proof (cases p)
      case Nil
      with e have "take (length sub) (c # cs) = sub" by simp
      then show ?thesis by simp
    next
      case (Cons a p')
      with e have "cs = p' @ sub @ q" by simp
      then have "str_includes cs sub" using Cons.IH by blast
      then show ?thesis by simp
    qed
  qed
qed

text \<open>What the single-device scraper records: the low word, which is the amount below \<open>2^31\<close>.\<close>

lemma long_low_small:
  assumes "v < 2 ^ 31"
  shows "long_low v = int (unat v)"
proof -
  have n: "unat v < 2 ^ 31" using assms by (simp add: word_less_nat_alt)
  have "(ucast v :: 32 word) = of_int (int (unat v))" by simp
  then have "sint (ucast v :: 32 word) = signed_take_bit 31 (int (unat v))"
    by (simp only: sint_sbintrunc') simp
  also have "\<dots> = int (unat v)"
  proof (rule signed_take_bit_int_eq_self)
    have "- (2 ^ 31) \<le> (0::int)" by simp
    also have "0 \<le> int (unat v)" by (rule of_nat_0_le_iff)
    finally show "- (2 ^ 31) \<le> int (unat v)" .
    have "int (unat v) < int (2 ^ 31)" using n by (simp only: of_nat_less_iff)
    then show "int (unat v) < 2 ^ 31" by simp
  qed
  finally show ?thesis by (simp add: long_low_def)
qed

lemma rewardAmount_of_small:
  "gatewayReward decoded = Some gr \<Longrightarrow> dcTransferReward gr = Some v \<Longrightarrow> v < 2 ^ 31
   \<Longrightarrow> rewardAmount_of decoded = int (unat v)"
  by (simp add: rewardAmount_of_def long_low_small)

lemma rewardAmount_of_absent:
  "gatewayReward decoded = None \<or> (\<exists>gr. gatewayReward decoded = Some gr \<and> dcTransferReward gr = None)
   \<Longrightarrow> rewardAmount_of decoded = 0"
  by (auto simp: rewardAmount_of_def)

text \<open>
  When a frame changes the reward list of \<open>scrapeHeliumRewards\<close>, and when it changes
  the totals or the reward counter of the fleet scan.
\<close>

lemma scrape_frame_pushes:
  "mobileRewards (scrape_frame decode targetFormats file timestamp st frame) =
     (case decode frame of
        Inl e \<Rightarrow> mobileRewards st
      | Inr decoded \<Rightarrow>
          if containsTargetDevice decoded targetFormats
          then mobileRewards st @ [\<lparr>entry_file = file, entry_timestamp = timestamp,
                                     entry_message = decoded, rewardAmount = rewardAmount_of decoded\<rparr>]
          else mobileRewards st)"
  by (simp add: scrape_frame_def Let_def split: sum.splits)

lemma run_frame_counts:
  "totalsByWindow (run_frame decode windows endTs t rs frame) \<noteq> totalsByWindow rs
     \<or> rewardsCounted (run_frame decode windows endTs t rs frame) \<noteq> rewardsCounted rs
   \<Longrightarrow> \<exists>decoded deviceKey. decode frame = Inr decoded \<and> dc_of decoded \<noteq> 0
         \<and> deviceKeyStringFromDecoded decoded = Some deviceKey \<and> deviceKey \<noteq> []"
  by (auto simp: run_frame_def Let_def split: sum.splits option.splits if_splits)

text \<open>\<open>extractSubmessage\<close> throws at a tag whose wire type is not 0, 1, 2 or 5, and the
  frame loop of \<open>scrapePocRewards\<close> goes on after a frame whose \<open>try\<close> body threw.\<close>

lemma extractSubmessage_unknown_wire:
  "pos < length frame \<Longrightarrow> uint32 frame pos = Inr (tag, p1)
   \<Longrightarrow> tag AND 7 \<noteq> 0 \<Longrightarrow> tag AND 7 \<noteq> 1 \<Longrightarrow> tag AND 7 \<noteq> 2 \<Longrightarrow> tag AND 7 \<noteq> 5
   \<Longrightarrow> extractSubmessage_from frame fieldNo pos
       = Inl (Error (''unexpected wire type '' @ wire_name (tag AND 7)))"
  by (subst extractSubmessage_from.simps) (simp add: Let_def)

text \<open>At such a tag the period loop and the radio-reward loop raise nothing: they go on
  at the byte after the tag.\<close>

lemma getPeriod_loop_unknown_wire:
  "pos < length frame \<Longrightarrow> uint32 frame pos = Inr (tag, p1)
   \<Longrightarrow> tag AND 7 \<noteq> 0 \<Longrightarrow> tag AND 7 \<noteq> 1 \<Longrightarrow> tag AND 7 \<noteq> 2 \<Longrightarrow> tag AND 7 \<noteq> 5
   \<Longrightarrow> getPeriod_loop frame pos start end = getPeriod_loop frame p1 start end"
  by (subst getPeriod_loop.simps) (simp add: Let_def)

lemma parseRadio_loop_unknown_wire:
  "pos < length rr2 \<Longrightarrow> uint32 rr2 pos = Inr (tag, p1)
   \<Longrightarrow> tag AND 7 \<noteq> 0 \<Longrightarrow> tag AND 7 \<noteq> 1 \<Longrightarrow> tag AND 7 \<noteq> 2 \<Longrightarrow> tag AND 7 \<noteq> 5
   \<Longrightarrow> parseRadio_loop rr2 pos st = parseRadio_loop rr2 p1 st"
  by (subst parseRadio_loop.simps) (simp add: Let_def)

lemma poc_frame_catches:
  "poc_try targetFormats file timestamp frame = Inl e
   \<Longrightarrow> poc_frame targetFormats file timestamp st frame = st\<lparr>messageCount := messageCount st + 1\<rparr>"
  by (simp add: poc_frame_def Let_def)

lemma poc_scan_goes_on:
  "poc_try targetFormats file timestamp frame = Inl e
   \<Longrightarrow> foldl (poc_frame targetFormats file timestamp) st (before @ frame # after)
       = foldl (poc_frame targetFormats file timestamp)
           ((foldl (poc_frame targetFormats file timestamp) st before)
              \<lparr>messageCount := messageCount (foldl (poc_frame targetFormats file timestamp) st before) + 1\<rparr>)
           after"
  by (simp add: poc_frame_catches)

section \<open>The claims\<close>

text \<open>
  C1. The amount \<open>scrapeHeliumRewards\<close> records is \<open>dcTransferReward.low\<close>, the low
  32 bits of the value read as a signed integer, not the 64-bit value: for
  \<open>dcTransferReward = 2^32\<close> it records 0, where the debug script and the fleet scan
  (\<open>parseInt(dcTransfer.toString(), 10)\<close>) get 4294967296, and for 3000000000 it
  records a negative amount.
\<close>

theorem rewardAmount_keeps_low_word:
  "rewardAmount_of \<lparr>gatewayReward = Some \<lparr>dcTransferReward = Some 4294967296,
                                          property = Map.empty, ownFields = []\<rparr>,
                     messageStr = [], enrichedStr = []\<rparr> = 0
   \<and> dc_of \<lparr>gatewayReward = Some \<lparr>dcTransferReward = Some 4294967296,
                                          property = Map.empty, ownFields = []\<rparr>,
             messageStr = [], enrichedStr = []\<rparr> = 4294967296
   \<and> rewardAmount_of \<lparr>gatewayReward = Some \<lparr>dcTransferReward = Some 3000000000,
                                          property = Map.empty, ownFields = []\<rparr>,
                       messageStr = [], enrichedStr = []\<rparr> = - 1294967296"
  by (simp add: rewardAmount_of_def dc_of_def long_low_def long_value_def)

text \<open>
  C2. A reward event is to be emitted for a decoded frame only if a reward amount of the
  frame is not 0 and the device matches (single-device mode) or a device key was derived
  (fleet mode). \<open>scrapeHeliumRewards\<close> does not test the amount: a frame whose message
  matches the target and whose only reward amount, the DC transfer reward, is 0 is pushed
  onto the reward list, with amount 0. The debug script and the fleet scan meet the same
  frame with \<open>if (!dc) continue\<close>: their totals and their reward counter stay as they
  were.
\<close>

theorem zero_amount_event_emitted:
  "rewardAmount_of
     \<lparr>gatewayReward = Some \<lparr>dcTransferReward = Some 0,
                             property = [''hotspotKey'' \<mapsto> Bytes [1]],
                             ownFields = [(''hotspotKey'', Bytes [1])]\<rparr>,
      messageStr = ''hotspotKey:KEY'', enrichedStr = []\<rparr> = 0
   \<and> dc_of
     \<lparr>gatewayReward = Some \<lparr>dcTransferReward = Some 0,
                             property = [''hotspotKey'' \<mapsto> Bytes [1]],
                             ownFields = [(''hotspotKey'', Bytes [1])]\<rparr>,
      messageStr = ''hotspotKey:KEY'', enrichedStr = []\<rparr> = 0
   \<and> map rewardAmount
         (mobileRewards
            (scrape_frame
               (\<lambda>frame.
                  Inr \<lparr>gatewayReward = Some \<lparr>dcTransferReward = Some 0,
                                              property = [''hotspotKey'' \<mapsto> Bytes [1]],
                                              ownFields = [(''hotspotKey'', Bytes [1])]\<rparr>,
                       messageStr = ''hotspotKey:KEY'', enrichedStr = []\<rparr>)
               \<lparr>original = ''KEY'', rawBase58 = ''x'', hex = ''y'', base64 = ''z'', base58check = None\<rparr>
               ''file'' 0 \<lparr>mobileRewards = [], dc_messageCount = 0, dc_foundCount = 0\<rparr> [])) = [0]
   \<and> script_frame
         (\<lambda>frame.
            Inr \<lparr>gatewayReward = Some \<lparr>dcTransferReward = Some 0,
                                        property = [''hotspotKey'' \<mapsto> Bytes [1]],
                                        ownFields = [(''hotspotKey'', Bytes [1])]\<rparr>,
                 messageStr = ''hotspotKey:KEY'', enrichedStr = []\<rparr>)
         \<lparr>original = ''KEY'', rawBase58 = ''x'', hex = ''y'', base64 = ''z'', base58check = None\<rparr>
         ''2023-11-14'' \<lparr>totalsByDay = Map.empty, totalDc = 0, totalMatches = 0, totalFrames = 0\<rparr> []
       = \<lparr>totalsByDay = Map.empty, totalDc = 0, totalMatches = 1, totalFrames = 1\<rparr>
   \<and> rewardsCounted
         (run_frame
            (\<lambda>frame.
               Inr \<lparr>gatewayReward = Some \<lparr>dcTransferReward = Some 0,
                                           property = [''hotspotKey'' \<mapsto> Bytes [1]],
                                           ownFields = [(''hotspotKey'', Bytes [1])]\<rparr>,
                    messageStr = ''hotspotKey:KEY'', enrichedStr = []\<rparr>)
            [7, 30] 1700000000000 1699913600000 run_init []) = 0"
  by (simp add: rewardAmount_of_def dc_of_def long_low_def long_value_def scrape_frame_def
      containsTargetDevice_def containsTargetDevice_script_def script_frame_def run_frame_def
      run_init_def format_values_def Let_def)

text \<open>
  C3. Round trip of checksummed base58. For every payload and version byte, base58-decoding
  the checksummed encoding succeeds, the first byte of the decoded bytes is the version,
  and stripping that byte and the last 4 bytes (the checksum), as
  \<open>decoded.slice(1, -4)\<close> does, gives back the payload.
\<close>

theorem base58check_roundtrip:
  "(case bs58_decode (base58checkEncode payload v) of
      Inl e \<Rightarrow> False
    | Inr decoded \<Rightarrow> slice 0 1 decoded = [v] \<and> slice 1 (- 4) decoded = payload)"
proof -
  obtain chk where len: "length chk = 4"
    and enc: "base58checkEncode payload v = bs58_encode (v # payload @ chk)"
    using checked_encoding by blast
  have "slice 0 1 (v # payload @ chk) = [v]"
    by (simp add: slice_def clamp_index_def Let_def)
  then show ?thesis
    by (simp add: enc bs58_roundtrip slice_checked [OF len])
qed

theorem base58check_roundtrip_witness:
  "(case bs58_decode (base58checkEncode [1, 2] 0) of
      Inl e \<Rightarrow> False
    | Inr decoded \<Rightarrow> slice 0 1 decoded = [0] \<and> slice 1 (- 4) decoded = [1, 2])"
  by (rule base58check_roundtrip)

text \<open>
  C4. Chunk-boundary independence. Two streams that carry the same bytes, however each
  is cut into chunks, make the frame decoder yield the same frames. The frames are exact:
  the bytes of the stream are the yielded frames, each behind its 4-byte big-endian
  length, one after the other, followed by the buffer the decoder still holds at the end,
  which has no complete frame. So no frame is split and none is merged.
\<close>

theorem framedMessages_chunk_independent:
  assumes "concat stream1 = concat stream2"
  shows "framedMessages stream1 = framedMessages stream2
         \<and> concat stream1 = concat (map frame_bytes (framedMessages stream1)) @ final_buffer [] stream1
         \<and> \<not> frame_ready (final_buffer [] stream1)"
proof -
  have stuck: "\<not> frame_ready []" by (simp add: frame_ready_def)
  have fb: "final_buffer [] stream1 = snd (drain (concat stream1))"
    using final_buffer_drain [OF stuck, of stream1] by simp
  have "framedMessages stream1 = framedMessages stream2"
    using assms by (simp add: framedMessages_drain)
  moreover have "concat stream1
      = concat (map frame_bytes (framedMessages stream1)) @ final_buffer [] stream1"
    using drain_decompose [of "concat stream1"] by (simp add: framedMessages_drain fb)
  moreover have "\<not> frame_ready (final_buffer [] stream1)"
    by (simp add: fb drain_rest_stuck)
  ultimately show ?thesis by simp
qed

theorem framedMessages_chunk_independent_witness:
  "framedMessages [[0], [0], [0], [2], [7], [9], [0], [0]] = framedMessages [[0, 0, 0, 2, 7, 9, 0, 0]]
   \<and> framedMessages [[0, 0, 0, 2, 7, 9, 0, 0]] = [[7, 9]]"
proof -
  have eq: "concat [[0], [0], [0], [2], [7], [9], [0], [0]] = concat [[0, 0, 0, 2, 7, 9, 0, 0 :: byte]]"
    by simp
  have "framedMessages [[0, 0, 0, 2, 7, 9, 0, 0]] = [[7, 9]]"
    by (simp add: framedMessages_def drain.simps)
  then show ?thesis
    using framedMessages_chunk_independent [OF eq] by simp
qed

text \<open>
  C5. A truncated last frame. When the bytes of the stream are complete frames followed by
  a partial one (fewer than 4 bytes, or fewer than 4 + length bytes for its length prefix),
  the decoder, a total function with no error branch, yields exactly the complete frames,
  unchanged and in order, and ends holding the partial frame, which it never yields.
\<close>

theorem framedMessages_partial_tail:
  assumes "concat stream = concat (map frame_bytes frames) @ partial"
    and "list_all (\<lambda>m. length m < 2 ^ 32) frames"
    and "\<not> frame_ready partial"
  shows "framedMessages stream = frames \<and> final_buffer [] stream = partial"
proof -
  have stuck: "\<not> frame_ready []" by (simp add: frame_ready_def)
  have "drain (concat stream) = (frames, partial)"
    using drain_frames [OF assms(2,3)] assms(1) by simp
  then show ?thesis
    using final_buffer_drain [OF stuck, of stream] by (simp add: framedMessages_drain)
qed

theorem framedMessages_partial_tail_witness:
  "framedMessages [[0, 0, 0, 1, 7, 0, 0], [0, 5, 1]] = [[7]]
   \<and> final_buffer [] [[0, 0, 0, 1, 7, 0, 0], [0, 5, 1]] = [0, 0, 0, 5, 1]"
proof -
  have a: "concat [[0, 0, 0, 1, 7, 0, 0], [0, 5, 1 :: byte]]
           = concat (map frame_bytes [[7]]) @ [0, 0, 0, 5, 1]"
    by (simp add: frame_bytes_def writeUInt32BE_def)
  have b: "list_all (\<lambda>m. length m < 2 ^ 32) [[7 :: byte]]" by simp
  have c: "\<not> frame_ready [0, 0, 0, 5, 1]" by (simp add: frame_ready_def)
  show ?thesis by (rule framedMessages_partial_tail [OF a b c])
qed

text \<open>
  C6. Window totals are monotone. After the scan, for every device and every two windows
  \<open>w1 < w2\<close> of the configured (sorted, duplicate-free) window list, the total of the
  device over \<open>w1\<close> is at most its total over \<open>w2\<close>; a device with no entry in a
  window's map counts as 0. Amounts are exact naturals here, not doubles.
\<close>

theorem window_totals_monotone:
  assumes "run_scan decode config endTs files = Inr st"
    and "w1 \<in> set (WINDOWS_DAYS config)" and "w2 \<in> set (WINDOWS_DAYS config)" and "w1 < w2"
  shows "total_of (totalsByWindow st) w1 deviceKey \<le> total_of (totalsByWindow st) w2 deviceKey"
proof -
  have "window_monotone (WINDOWS_DAYS config) (totalsByWindow run_init)"
    by (simp add: window_monotone_def run_init_def total_of_def)
  then have "window_monotone (WINDOWS_DAYS config) (totalsByWindow st)"
    using run_files_monotone [OF distinct_WINDOWS_DAYS] assms(1) unfolding run_scan_def by blast
  then show ?thesis using assms(2-4) by (simp add: window_monotone_def)
qed

theorem window_totals_monotone_witness:
  "(case run_scan
           (\<lambda>frame. Inr \<lparr>gatewayReward =
                            Some \<lparr>dcTransferReward = Some 100,
                                  property = [''hotspotKey'' \<mapsto> Bytes [1]],
                                  ownFields = [(''hotspotKey'', Bytes [1])]\<rparr>,
                          messageStr = [], enrichedStr = []\<rparr>)
           [30, 7] 1700000000000
           [\<lparr>file_key = ''old'', file_ts = 1699136000000, file_body = Inr (Some [[0, 0, 0, 0]])\<rparr>,
            \<lparr>file_key = ''new'', file_ts = 1699913600000, file_body = Inr (Some [[0, 0], [0, 0]])\<rparr>] of
      Inl e \<Rightarrow> False
    | Inr st \<Rightarrow>
        total_of (totalsByWindow st) 7 (base58checkEncode [1] 0)
          \<le> total_of (totalsByWindow st) 30 (base58checkEncode [1] 0)
        \<and> total_of (totalsByWindow st) 7 (base58checkEncode [1] 0) = 100
        \<and> total_of (totalsByWindow st) 30 (base58checkEncode [1] 0) = 200)"
proof -
  let ?msg = "\<lparr>gatewayReward = Some \<lparr>dcTransferReward = Some 100,
                                        property = [''hotspotKey'' \<mapsto> Bytes [1]],
                                  ownFields = [(''hotspotKey'', Bytes [1])]\<rparr>,
                messageStr = [], enrichedStr = []\<rparr>"
  let ?decode = "\<lambda>frame :: buffer. (Inr ?msg :: js_error + decoded_share)"
  let ?K = "base58checkEncode [1] 0"
  let ?files = "[\<lparr>file_key = ''old'', file_ts = 1699136000000, file_body = Inr (Some [[0, 0, 0, 0]])\<rparr>,
                 \<lparr>file_key = ''new'', file_ts = 1699913600000, file_body = Inr (Some [[0, 0], [0, 0]])\<rparr>]"
  have ws: "WINDOWS_DAYS [30, 7] = [7, 30]" by (simp add: WINDOWS_DAYS_def)
  have f1: "framedMessages [[0, 0, 0, 0]] = [[]]"
    by (simp add: framedMessages_def drain.simps)
  have f2: "framedMessages [[0, 0], [0, 0]] = [[]]"
    by (simp add: framedMessages_def drain.simps)
  have dc: "dc_of ?msg = 100" by (simp add: dc_of_def long_value_def)
  have dk: "deviceKeyStringFromDecoded ?msg = Some ?K"
    by (simp add: deviceKeyStringFromDecoded_def pickDeviceBytesFromGatewayReward_def preferred_def)
  have ne: "?K \<noteq> []" by (rule base58checkEncode_not_empty)
  have frame: "\<And>t st. run_frame ?decode [7, 30] 1700000000000 t st [] =
      st\<lparr>framesScanned := framesScanned st + 1, decodedOk := decodedOk st + 1,
         deviceKeysExtracted := deviceKeysExtracted st + 1,
         rewardsCounted := rewardsCounted st + 1,
         totalsByWindow := add_to_windows 1700000000000 t ?K 100 [7, 30] (totalsByWindow st)\<rparr>"
    by (simp add: run_frame_def Let_def dc dk ne)
  define st0 where "st0 = foldl (run_frame ?decode [7, 30] 1700000000000 1699913600000)
      (foldl (run_frame ?decode [7, 30] 1700000000000 1699136000000) run_init [[]]) [[]]"
  have ev: "run_scan ?decode [30, 7] 1700000000000 ?files = Inr st0"
    by (simp add: run_scan_def ws f1 f2 st0_def)
  have m7: "7 \<in> set (WINDOWS_DAYS [30, 7])" and m30: "30 \<in> set (WINDOWS_DAYS [30, 7])"
    by (simp_all add: ws)
  have le: "total_of (totalsByWindow st0) 7 ?K \<le> total_of (totalsByWindow st0) 30 ?K"
    by (rule window_totals_monotone [OF ev m7 m30]) simp
  have v7: "total_of (totalsByWindow st0) 7 ?K = 100"
    by (simp add: st0_def frame run_init_def cutoff_def total_of_def)
  have v30: "total_of (totalsByWindow st0) 30 ?K = 200"
    by (simp add: st0_def frame run_init_def cutoff_def total_of_def)
  from le v7 v30 have all:
    "total_of (totalsByWindow st0) 7 ?K \<le> total_of (totalsByWindow st0) 30 ?K
     \<and> total_of (totalsByWindow st0) 7 ?K = 100
     \<and> total_of (totalsByWindow st0) 30 ?K = 200"
    by blast
  show ?thesis by (simp only: ev sum.case) (rule all)
qed

text \<open>
  C7. The listing. When the store answers the first request (no token) and each request
  made with the token of the response before, up to the first response that is not
  truncated or has no token, \<open>listGzKeysInRange\<close> returns: it has gone through all of
  these responses, kept exactly the keys that end in \<open>.gz\<close> and whose timestamp is in
  \<open>[startTs, endTs]\<close>, both ends included, and sorted them by timestamp, ascending.
  The timestamp of a key is the number of the 13 digits between a dot and the final
  \<open>.gz\<close> (lemma \<open>match_timestamp_iff\<close>), and 0 for a key with no such group.
\<close>

theorem listGzKeysInRange_listing:
  assumes "listing send prefix None resps"
  shows "(case listGzKeysInRange send prefix startTs endTs of
            Some (Inr keys) \<Rightarrow>
              keys = sort_key ts
                       (map (\<lambda>k. \<lparr>key = k, ts = key_ts k\<rparr>)
                          (filter (\<lambda>k. endsWith k ''.gz'' \<and> startTs \<le> key_ts k \<and> key_ts k \<le> endTs)
                             (concat (map Contents resps))))
              \<and> sorted (map ts keys)
              \<and> (0 < startTs \<longrightarrow> list_all (\<lambda>k. match_timestamp (key k) \<noteq> None) keys)
          | _ \<Rightarrow> False)"
proof -
  let ?kept = "map (\<lambda>k. \<lparr>key = k, ts = key_ts k\<rparr>)
                 (filter (\<lambda>k. endsWith k ''.gz'' \<and> startTs \<le> key_ts k \<and> key_ts k \<le> endTs)
                    (concat (map Contents resps)))"
  have res: "listGzKeysInRange send prefix startTs endTs = Some (Inr (sort_key ts ?kept))"
    using list_loop_listing [OF assms, of startTs endTs "[]"]
    by (simp add: listGzKeysInRange_def)
  have "0 < startTs \<longrightarrow> list_all (\<lambda>k. match_timestamp (key k) \<noteq> None) (sort_key ts ?kept)"
    by (auto simp: list_all_iff key_ts_def split: option.splits)
  then show ?thesis by (simp add: res)
qed

theorem listGzKeysInRange_listing_witness:
  "listGzKeysInRange
     (\<lambda>prefix token.
        if token = None
        then Inr \<lparr>Contents = [''p/a.1700000000002.gz'', ''p/notes.txt'', ''p/old.1600000000000.gz''],
                  IsTruncated = True, NextContinuationToken = Some ''t1''\<rparr>
        else Inr \<lparr>Contents = [''p/b.1700000000001.gz'', ''p/c.gz''],
                  IsTruncated = False, NextContinuationToken = None\<rparr>)
     ''p'' 1700000000000 1700000000005 =
   Some (Inr [\<lparr>key = ''p/b.1700000000001.gz'', ts = 1700000000001\<rparr>,
              \<lparr>key = ''p/a.1700000000002.gz'', ts = 1700000000002\<rparr>])"
proof -
  let ?r1 = "\<lparr>Contents = [''p/a.1700000000002.gz'', ''p/notes.txt'', ''p/old.1600000000000.gz''],
              IsTruncated = True, NextContinuationToken = Some ''t1''\<rparr>"
  let ?r2 = "\<lparr>Contents = [''p/b.1700000000001.gz'', ''p/c.gz''],
              IsTruncated = False, NextContinuationToken = None\<rparr>"
  let ?send = "\<lambda>prefix token. if token = None then Inr ?r1 else Inr ?r2"
  have l2: "listing ?send ''p'' (Some ''t1'') [?r2]"
    by (rule listing_last) (simp_all add: last_page_def)
  have l1: "listing ?send ''p'' None [?r1, ?r2]"
    by (rule listing_more) (simp_all add: last_page_def l2)
  have ev: "sort_key ts
      (map (\<lambda>k. \<lparr>key = k, ts = key_ts k\<rparr>)
         (filter (\<lambda>k. endsWith k ''.gz'' \<and> 1700000000000 \<le> key_ts k \<and> key_ts k \<le> 1700000000005)
            (concat (map Contents [?r1, ?r2])))) =
      [\<lparr>key = ''p/b.1700000000001.gz'', ts = 1700000000001\<rparr>,
       \<lparr>key = ''p/a.1700000000002.gz'', ts = 1700000000002\<rparr>]"
    by code_simp
  show ?thesis
    using listGzKeysInRange_listing [OF l1, of 1700000000000 1700000000005]
    by (simp only: ev split: option.splits sum.splits)
qed

text \<open>
  C8. Only \<open>extractSubmessage\<close> throws on a wire type other than 0, 1, 2 and 5.
  \<open>getPeriodFromFrame\<close> and \<open>parseRadioRewardV2\<close> have no branch for it and read on:
  on the one-byte frame 0x0B (field 1, wire type 3) the period extractor returns
  \<open>null\<close> with no error, and a frame whose nested radio-reward message starts with that
  tag is parsed and recorded as a reward entry.
\<close>

theorem unknown_wire_type_not_raised:
  "getPeriodFromFrame [0x0B] = Inr None
   \<and> extractSubmessage [0x0B] 8 = Inl (Error ''unexpected wire type 3'')
   \<and> parseRadioRewardV2 [0x0B, 0x12, 0x01, 0x41, 0x38, 0x05] =
       Inr \<lparr>hotspotId = None, cbsdId = Some ''A'', basePoc = 5, boostedPoc = 0, totalPoc = 5\<rparr>
   \<and> poc_frame \<lparr>original = ''A'', rawBase58 = [], hex = [], base64 = [], base58check = None\<rparr>
         ''file'' 0 \<lparr>pocRewards = [], messageCount = 0, foundCount = 0\<rparr>
         [0x42, 0x06, 0x0B, 0x12, 0x01, 0x41, 0x38, 0x05] =
       \<lparr>pocRewards = [\<lparr>poc_file = ''file'', poc_timestamp = 0, poc_basePoc = 5,
                         poc_boostedPoc = 0, poc_totalPoc = 5, poc_period = None,
                         poc_hotspotId = None, poc_cbsdId = Some ''A''\<rparr>],
        messageCount = 1, foundCount = 1\<rparr>"
proof (intro conjI)
  show "getPeriodFromFrame [0x0B] = Inr None" by code_simp
  show "extractSubmessage [0x0B] 8 = Inl (Error ''unexpected wire type 3'')" by code_simp
  show "parseRadioRewardV2 [0x0B, 0x12, 0x01, 0x41, 0x38, 0x05] =
       Inr \<lparr>hotspotId = None, cbsdId = Some ''A'', basePoc = 5, boostedPoc = 0, totalPoc = 5\<rparr>"
    by code_simp
  show "poc_frame \<lparr>original = ''A'', rawBase58 = [], hex = [], base64 = [], base58check = None\<rparr>
         ''file'' 0 \<lparr>pocRewards = [], messageCount = 0, foundCount = 0\<rparr>
         [0x42, 0x06, 0x0B, 0x12, 0x01, 0x41, 0x38, 0x05] =
       \<lparr>pocRewards = [\<lparr>poc_file = ''file'', poc_timestamp = 0, poc_basePoc = 5,
                         poc_boostedPoc = 0, poc_totalPoc = 5, poc_period = None,
                         poc_hotspotId = None, poc_cbsdId = Some ''A''\<rparr>],
        messageCount = 1, foundCount = 1\<rparr>"
    by code_simp
qed

text \<open>
  C9. What \<open>getTargetDeviceFormats\<close> does with keys that are not checksummed base58.
  A key with a character outside the alphabet makes \<open>bs58.decode\<close> throw in the
  \<open>try\<close> block and again in the \<open>catch\<close> block, so the exception leaves the
  function. A key that is plain base58 (here \<open>2g\<close>, the one byte 0x61) does not throw:
  the \<open>try\<close> block strips a version byte and a checksum that are not there, so the raw
  base58 form is not the input, and the base58check field is present.
\<close>

theorem getTargetDeviceFormats_plain_keys:
  "getTargetDeviceFormats ''0'' = Inl (Error ''Non-base58 character'')
   \<and> getTargetDeviceFormats ''2g'' =
       Inr \<lparr>original = ''2g'', rawBase58 = [], hex = [], base64 = [],
            base58check = Some (base58checkEncode [] 0)\<rparr>"
proof -
  have bad: "bs58_decode ''0'' = Inl (Error ''Non-base58 character'')" by code_simp
  have plain: "bs58_decode ''2g'' = Inr [0x61]" by code_simp
  have "getTargetDeviceFormats ''0'' = Inl (Error ''Non-base58 character'')"
    by (simp add: getTargetDeviceFormats_def bad)
  moreover have "getTargetDeviceFormats ''2g'' =
       Inr \<lparr>original = ''2g'', rawBase58 = [], hex = [], base64 = [],
            base58check = Some (base58checkEncode [] 0)\<rparr>"
    by (simp add: getTargetDeviceFormats_def plain slice_def clamp_index_def bs58_encode_def
        Let_def toHex_def)
  ultimately show ?thesis by simp
qed

text \<open>
  C10. The two checksummed encoders of the PoC scraper, \<open>base58checkEncode\<close> and
  \<open>base58checkEncodeRaw\<close>, give the same string for every payload and version byte.
\<close>

theorem base58checkEncodeRaw_eq:
  "base58checkEncodeRaw payload version = base58checkEncode payload version"
  by (simp add: base58checkEncodeRaw_def base58checkEncode_def Let_def subarray_def slice_def
      clamp_index_def length_sha256)

theorem base58checkEncodeRaw_eq_witness:
  "base58checkEncodeRaw [1, 2] 0 = base58checkEncode [1, 2] 0"
  by (rule base58checkEncodeRaw_eq)

end
